theory Spec2Isabelle
  imports
    Main
    "HOL-Library.Char_ord"
    "HOL-Library.List_Lexorder"
    "HOL-Library.Product_Lexorder"
    "HOL-Library.AList"
begin

section \<open>Python values used by the two scripts\<close>

text \<open>
  A Python \<open>str\<close> is a \<^typ>\<open>string\<close>; a \<^typ>\<open>char\<close> stands for a code point
  below 256.  With \<open>Char_ord\<close> and \<open>List_Lexorder\<close> the order on \<^typ>\<open>string\<close> is
  the lexicographic order by code point, which is how Python compares \<open>str\<close> values.

  Every exception the scripts can raise is a value of \<open>error\<close>:
  \<^item> \<open>Unexpected_format\<close>: \<open>ValueError("Unexpected format of /etc/os-release")\<close>;
  \<^item> \<open>Unsupported_distro d\<close>: \<open>ValueError(f'Unsupported distro: {d}')\<close>;
  \<^item> \<open>Invalid_version s\<close>: the \<open>ValueError\<close> of the library call \<open>Version(s)\<close>;
  \<^item> \<open>Empty_max\<close>: the \<open>ValueError\<close> of \<open>max\<close> on an empty sequence;
  \<^item> \<open>IndexError\<close>: indexing a string out of range;
  \<^item> \<open>KeyError\<close>: subscripting a dict with a missing key;
  \<^item> \<open>OSError\<close>: raised by \<open>safe_run_process\<close>, and by \<open>Popen\<close> when the program
    cannot be started;
  \<^item> \<open>CalledProcessError\<close>: \<open>subprocess.check_output\<close> on a non-zero exit status;
  \<^item> \<open>UnicodeDecodeError\<close>: \<open>bytes.decode()\<close> on bytes that are not valid text.
\<close>

datatype error =
    Unexpected_format
  | Unsupported_distro string
  | Invalid_version string
  | Empty_max
  | IndexError
  | KeyError
  | OSError
  | CalledProcessError
  | UnicodeDecodeError

subsection \<open>\<open>str.split()\<close> and \<open>str.strip()\<close>\<close>

text \<open>
  The whitespace of \<open>str.split()\<close> and \<open>str.strip()\<close> among the code points below 256:
  TAB, LF, VT, FF, CR, the separators 0x1C to 0x1F, the space, NEL (0x85) and NBSP (0xA0).
\<close>

definition isspace :: "char \<Rightarrow> bool" where
  "isspace c =
     (let n = (of_char c :: nat)
      in (9 \<le> n \<and> n \<le> 13) \<or> (28 \<le> n \<and> n \<le> 32) \<or> n = 133 \<or> n = 160)"

text \<open>
  \<open>s.split()\<close> with no argument: the maximal runs of non-whitespace characters, in
  order.  \<open>split_from cur s\<close> scans \<open>s\<close> with the token read so far in \<open>cur\<close>.
\<close>

fun split_from :: "string \<Rightarrow> string \<Rightarrow> string list" where
  "split_from cur [] = (if cur = [] then [] else [cur])"
| "split_from cur (c # cs) =
     (if isspace c
      then (if cur = [] then split_from [] cs else cur # split_from [] cs)
      else split_from (cur @ [c]) cs)"

definition split :: "string \<Rightarrow> string list" where
  "split s = split_from [] s"

definition strip :: "string \<Rightarrow> string" where
  "strip s = rev (dropWhile isspace (rev (dropWhile isspace s)))"

subsection \<open>Formatting an integer, as an f-string does\<close>

definition digit :: "nat \<Rightarrow> char" where
  "digit d = ''0123456789'' ! d"

fun str_nat :: "nat \<Rightarrow> string" where
  "str_nat n = (if n < 10 then [digit n] else str_nat (n div 10) @ [digit (n mod 10)])"

declare str_nat.simps [simp del]

subsection \<open>Comprehensions and loops that may raise\<close>

text \<open>
  \<open>[f(x) for x in xs]\<close> where \<open>f\<close> may raise: the first exception ends the
  comprehension.
\<close>

fun map_result :: "('a \<Rightarrow> error + 'b) \<Rightarrow> 'a list \<Rightarrow> error + 'b list" where
  "map_result f [] = Inr []"
| "map_result f (x # xs) =
     (case f x of
        Inl e \<Rightarrow> Inl e
      | Inr y \<Rightarrow> (case map_result f xs of Inl e \<Rightarrow> Inl e | Inr ys \<Rightarrow> Inr (y # ys)))"

text \<open>\<open>[x for x in xs if p(x)]\<close> where the condition may raise.\<close>

fun filter_result :: "('a \<Rightarrow> error + bool) \<Rightarrow> 'a list \<Rightarrow> error + 'a list" where
  "filter_result p [] = Inr []"
| "filter_result p (x # xs) =
     (case p x of
        Inl e \<Rightarrow> Inl e
      | Inr b \<Rightarrow>
          (case filter_result p xs of
             Inl e \<Rightarrow> Inl e
           | Inr ys \<Rightarrow> Inr (if b then x # ys else ys)))"

text \<open>A \<open>for\<close> loop that updates one variable and whose body may raise.\<close>

fun foldl_result :: "('s \<Rightarrow> 'a \<Rightarrow> error + 's) \<Rightarrow> 's \<Rightarrow> 'a list \<Rightarrow> error + 's" where
  "foldl_result f s [] = Inr s"
| "foldl_result f s (x # xs) =
     (case f s x of Inl e \<Rightarrow> Inl e | Inr s' \<Rightarrow> foldl_result f s' xs)"

subsection \<open>Dicts and \<open>max\<close>\<close>

text \<open>
  A dict is an association list in insertion order (\<open>items()\<close> iterates in that order).
  \<open>d[k] = v\<close> is \<open>AList.update k v d\<close>: an existing key keeps its place, a new key goes
  to the end.  \<open>d[k].append(x)\<close> raises \<open>KeyError\<close> when \<open>k\<close> is missing.
\<close>

definition dict_append ::
  "(string \<times> 'a list) list \<Rightarrow> string \<Rightarrow> 'a \<Rightarrow> error + (string \<times> 'a list) list" where
  "dict_append d k x =
     (case map_of d k of
        None \<Rightarrow> Inl KeyError
      | Some xs \<Rightarrow> Inr (AList.update k (xs @ [x]) d))"

text \<open>
  \<open>max(xs, key=key)\<close>: the first element whose key is maximal (a later element replaces
  the current one only when its key is strictly greater); \<open>ValueError\<close> on an empty list.
\<close>

fun max_from :: "('a \<Rightarrow> 'k::linorder) \<Rightarrow> 'a \<Rightarrow> 'a list \<Rightarrow> 'a" where
  "max_from key best [] = best"
| "max_from key best (x # xs) = max_from key (if key best < key x then x else best) xs"

definition py_max :: "('a \<Rightarrow> 'k::linorder) \<Rightarrow> 'a list \<Rightarrow> error + 'a" where
  "py_max key xs = (case xs of [] \<Rightarrow> Inl Empty_max | x # rest \<Rightarrow> Inr (max_from key x rest))"

section \<open>The library \<open>semantic_version\<close>\<close>

text \<open>
  \<open>semantic_version.Version\<close> is a third-party class, not part of the repository.  The
  scripts use its constructor (which raises \<open>ValueError\<close> on a string it does not
  accept), the attributes \<open>major\<close> and \<open>minor\<close>, and the comparisons.  The library is a
  parameter of the model: a type \<open>'v\<close> of version objects, linearly ordered, with
  \<open>Version s = None\<close> when the constructor raises.
\<close>

record 'v semantic_version =
  Version :: "string \<Rightarrow> 'v option"
  major :: "'v \<Rightarrow> nat"
  minor :: "'v \<Rightarrow> nat"

section \<open>Tag selection\<close>

subsection \<open>Shared by both scripts\<close>

definition safe_parse_version :: "'v semantic_version \<Rightarrow> string \<Rightarrow> 'v option" where
  "safe_parse_version L version_str =
     (case Version L version_str of Some v \<Rightarrow> Some v | None \<Rightarrow> None)"

text \<open>\<open>version_tag[0]\<close> raises \<open>IndexError\<close> on the empty string.\<close>

definition normalize_version ::
  "'v semantic_version \<Rightarrow> string \<Rightarrow> error + (string \<times> 'v option)" where
  "normalize_version L version_tag =
     (case version_tag of
        [] \<Rightarrow> Inl IndexError
      | c # rest \<Rightarrow>
          if c = CHR ''v'' then Inr (version_tag, safe_parse_version L rest)
          else Inr (version_tag, safe_parse_version L version_tag))"

text \<open>The dict key \<open>f'{version.major}.{version.minor}'\<close>.\<close>

definition minor_key :: "'v semantic_version \<Rightarrow> 'v \<Rightarrow> string" where
  "minor_key L version = str_nat (major L version) @ ''.'' @ str_nat (minor L version)"

text \<open>The pairs whose version is not \<open>None\<close>.\<close>

definition drop_unparsed :: "(string \<times> 'v option) list \<Rightarrow> (string \<times> 'v) list" where
  "drop_unparsed versions = [(version_str, the version). (version_str, version) \<leftarrow> versions, version \<noteq> None]"

text \<open>
  The three statements after parsing: the dict comprehension that creates an empty
  group per key, the loop that appends every pair to its group, and the maximum of
  every group.
\<close>

definition group_and_max ::
  "'v::linorder semantic_version \<Rightarrow> (string \<times> 'v) list \<Rightarrow> error + (string \<times> 'v) list" where
  "group_and_max L versions =
     (let versions_by_minor_version =
            foldl (\<lambda>d (version_tag, version). AList.update (minor_key L version) [] d) [] versions
      in case foldl_result
                (\<lambda>d (version_tag, version).
                    dict_append d (minor_key L version) (version_tag, version))
                versions_by_minor_version versions of
           Inl e \<Rightarrow> Inl e
         | Inr versions_by_minor_version' \<Rightarrow>
             map_result (\<lambda>(_, versions). py_max snd versions) versions_by_minor_version')"

subsection \<open>\<open>install_cpython.py\<close>\<close>

definition get_latest_minor_versions ::
  "'v::linorder semantic_version \<Rightarrow> string list \<Rightarrow> error + (string \<times> 'v) list" where
  "get_latest_minor_versions L versions =
     (case map_result (normalize_version L) versions of
        Inl e \<Rightarrow> Inl e
      | Inr versions' \<Rightarrow> group_and_max L (drop_unparsed versions'))"

text \<open>
  The two bound filters of \<open>__main__\<close>.  \<open>Version(bound)\<close> is inside the comprehension's
  condition, so it is evaluated once per element and raises only when there is one.
\<close>

definition at_least :: "'v::linorder semantic_version \<Rightarrow> string \<Rightarrow> string \<times> 'v \<Rightarrow> error + bool" where
  "at_least L bound = (\<lambda>(version_tag, version).
     case Version L bound of None \<Rightarrow> Inl (Invalid_version bound) | Some b \<Rightarrow> Inr (b \<le> version))"

definition at_most :: "'v::linorder semantic_version \<Rightarrow> string \<Rightarrow> string \<times> 'v \<Rightarrow> error + bool" where
  "at_most L bound = (\<lambda>(version_tag, version).
     case Version L bound of None \<Rightarrow> Inl (Invalid_version bound) | Some b \<Rightarrow> Inr (version \<le> b))"

definition select_versions ::
  "'v::linorder semantic_version \<Rightarrow> string list \<Rightarrow> string option \<Rightarrow> string option
     \<Rightarrow> error + (string \<times> 'v) list" where
  "select_versions L tags minimum_python_version maximum_python_version =
     (case get_latest_minor_versions L tags of
        Inl e \<Rightarrow> Inl e
      | Inr versions \<Rightarrow>
          (case (case minimum_python_version of
                   None \<Rightarrow> Inr versions
                 | Some lo \<Rightarrow> filter_result (at_least L lo) versions) of
             Inl e \<Rightarrow> Inl e
           | Inr versions' \<Rightarrow>
               (case maximum_python_version of
                  None \<Rightarrow> Inr versions'
                | Some hi \<Rightarrow> filter_result (at_most L hi) versions')))"

subsection \<open>\<open>install_all_minor_versions.py\<close>\<close>

definition get_latest_minor_versions_all ::
  "'v::linorder semantic_version \<Rightarrow> string list \<Rightarrow> string \<Rightarrow> error + (string \<times> 'v) list" where
  "get_latest_minor_versions_all L versions minimum_version =
     (case map_result (normalize_version L) versions of
        Inl e \<Rightarrow> Inl e
      | Inr versions' \<Rightarrow>
          (case filter_result (at_least L minimum_version) (drop_unparsed versions') of
             Inl e \<Rightarrow> Inl e
           | Inr versions'' \<Rightarrow> group_and_max L versions''))"

section \<open>Distro detection (\<open>install_cpython.py\<close>)\<close>

datatype DistroLike = Debian | RedHatFedora

text \<open>
  \<open>DistroLike(s)\<close> looks the member up by its value (\<open>"debian"\<close>, \<open>"rhel fedora"\<close>) and
  raises \<open>ValueError\<close> when no member has it; \<open>None\<close> stands for that exception.
\<close>

definition DistroLike_of :: "string \<Rightarrow> DistroLike option" where
  "DistroLike_of s =
     (if s = ''debian'' then Some Debian
      else if s = ''rhel fedora'' then Some RedHatFedora
      else None)"

text \<open>
  \<open>detect_distro_like\<close>, as a function of the text that \<open>f.read()\<close> returns for
  \<open>/etc/os-release\<close>.
\<close>

definition detect_distro_like :: "string \<Rightarrow> error + DistroLike" where
  "detect_distro_like content =
     (let target_prefix = ''ID_LIKE='';
          os_release = [drop (length target_prefix) line.
                          line \<leftarrow> split content,
                          take (length target_prefix) line = target_prefix]
      in if length os_release \<noteq> 1 then Inl Unexpected_format
         else let distro_like = last os_release
              in case DistroLike_of distro_like of
                   Some d \<Rightarrow> Inr d
                 | None \<Rightarrow> Inl (Unsupported_distro distro_like))"

section \<open>External commands\<close>

text \<open>
  What a run does to the outside is a trace of events: a call of \<open>Popen\<close> or
  \<open>check_output\<close> with its argument vector and working directory (recorded whether or not
  the program could be started), and the lines printed, told apart by the
  \<open>print\<close> statement that wrote them (a progress message of \<open>__main__\<close>, or the return
  code, captured standard output and captured standard error that \<open>safe_run_process\<close>
  prints for a failed command).

  The outside world answers every attempt to start a process, given everything that
  happened before: the program could not be started (\<open>Popen\<close> raises \<open>OSError\<close>), or it
  ran to completion with a return code and the bytes captured from its standard output and
  standard error.  Captured bytes are \<open>Text s\<close> when \<open>decode()\<close> turns them into the
  string \<open>s\<close>, and \<open>Undecodable\<close> when \<open>decode()\<close> raises \<open>UnicodeDecodeError\<close>.
  An empty argument vector starts nothing: \<open>Popen([])\<close> raises \<open>IndexError\<close>.
\<close>

datatype event =
    Exec "string list" "string option"
  | Print string
  | Print_returncode int
  | Print_stdout string
  | Print_stderr string

datatype captured = Text string | Undecodable

datatype proc_result = Launch_failed | Exited int captured captured

definition decode :: "captured \<Rightarrow> error + string" where
  "decode b = (case b of Text s \<Rightarrow> Inr s | Undecodable \<Rightarrow> Inl UnicodeDecodeError)"

type_synonym trace = "event list"

type_synonym world = "trace \<Rightarrow> string list \<Rightarrow> string option \<Rightarrow> proc_result"

text \<open>
  \<open>safe_run_process\<close>.  On a non-zero return code it prints the return code, then the
  decoded standard output, then the decoded standard error, and raises \<open>OSError\<close>; a
  \<open>decode()\<close> that fails ends it at that point with \<open>UnicodeDecodeError\<close>.
\<close>

definition safe_run_process ::
  "world \<Rightarrow> string \<Rightarrow> string option \<Rightarrow> trace \<Rightarrow> (error + unit) \<times> trace" where
  "safe_run_process W cmd cwd tr =
     (let argv = split cmd
      in if argv = [] then (Inl IndexError, tr)
         else
           let tr' = tr @ [Exec argv cwd]
           in case W tr argv cwd of
                Launch_failed \<Rightarrow> (Inl OSError, tr')
              | Exited returncode out err \<Rightarrow>
                  if returncode \<noteq> 0
                  then (case decode out of
                          Inl e \<Rightarrow> (Inl e, tr' @ [Print_returncode returncode])
                        | Inr out_text \<Rightarrow>
                            (case decode err of
                               Inl e \<Rightarrow>
                                 (Inl e, tr' @ [Print_returncode returncode, Print_stdout out_text])
                             | Inr err_text \<Rightarrow>
                                 (Inl OSError,
                                  tr' @ [Print_returncode returncode, Print_stdout out_text,
                                         Print_stderr err_text])))
                  else (Inr (), tr'))"

text \<open>
  \<open>subprocess.check_output(cmd.split(), cwd=cwd)\<close>: the bytes of the standard output, or
  \<open>CalledProcessError\<close> on a non-zero return code.
\<close>

definition check_output ::
  "world \<Rightarrow> string \<Rightarrow> string option \<Rightarrow> trace \<Rightarrow> (error + captured) \<times> trace" where
  "check_output W cmd cwd tr =
     (let argv = split cmd
      in if argv = [] then (Inl IndexError, tr)
         else
           let tr' = tr @ [Exec argv cwd]
           in case W tr argv cwd of
                Launch_failed \<Rightarrow> (Inl OSError, tr')
              | Exited returncode out err \<Rightarrow>
                  if returncode \<noteq> 0 then (Inl CalledProcessError, tr') else (Inr out, tr'))"

definition get_versions :: "world \<Rightarrow> string \<Rightarrow> trace \<Rightarrow> (error + string list) \<times> trace" where
  "get_versions W cpython_repo_dir tr =
     (case check_output W ''git tag'' (Some cpython_repo_dir) tr of
        (Inl e, tr') \<Rightarrow> (Inl e, tr')
      | (Inr out, tr') \<Rightarrow>
          (case decode out of
             Inl e \<Rightarrow> (Inl e, tr')
           | Inr out_text \<Rightarrow> (Inr (split out_text), tr')))"

text \<open>
  A block of \<open>print\<close> and \<open>safe_run_process\<close> statements, executed in order up to the
  first exception.
\<close>

datatype stmt = Say string | Run string "string option"

fun exec_stmts :: "world \<Rightarrow> stmt list \<Rightarrow> trace \<Rightarrow> (error + unit) \<times> trace" where
  "exec_stmts W [] tr = (Inr (), tr)"
| "exec_stmts W (Say msg # rest) tr = exec_stmts W rest (tr @ [Print msg])"
| "exec_stmts W (Run cmd cwd # rest) tr =
     (case safe_run_process W cmd cwd tr of
        (Inl e, tr') \<Rightarrow> (Inl e, tr')
      | (Inr _, tr') \<Rightarrow> exec_stmts W rest tr')"

text \<open>
  \<open>install_system_dependencies\<close>.  Its final \<open>else: raise ValueError\<close> has no member of
  \<open>DistroLike\<close> left to reach it.
\<close>

definition install_system_dependencies ::
  "world \<Rightarrow> DistroLike \<Rightarrow> trace \<Rightarrow> (error + unit) \<times> trace" where
  "install_system_dependencies W distro_like tr =
     (case distro_like of
        Debian \<Rightarrow>
          exec_stmts W
            [Run ''apt update'' None,
             Run ''apt build-dep -y python3'' None,
             Run (''apt install -y build-essential gdb lcov libbz2-dev libffi-dev libgdbm-dev liblzma-dev ''
                  @ ''libncurses5-dev libreadline6-dev libsqlite3-dev libssl-dev lzma lzma-dev tk-dev uuid-dev zlib1g-dev'')
               None] tr
      | RedHatFedora \<Rightarrow>
          exec_stmts W
            [Run ''yum install -y yum-utils'' None,
             Run ''yum-builddep -y python3'' None] tr)"

section \<open>The build driver\<close>

text \<open>\<open>sorted(version_tags, reverse=True)\<close> on strings.\<close>

definition sorted_reverse :: "string list \<Rightarrow> string list" where
  "sorted_reverse version_tags = rev (sort version_tags)"

text \<open>
  The \<open>for\<close> loop over the tags: the \<open>try\<close> block of one tag, \<open>except OSError: continue\<close>,
  and any other exception ends the loop.
\<close>

fun build_versions ::
  "(string \<Rightarrow> stmt list) \<Rightarrow> world \<Rightarrow> string list \<Rightarrow> trace \<Rightarrow> (error + unit) \<times> trace" where
  "build_versions body W [] tr = (Inr (), tr)"
| "build_versions body W (version_tag # rest) tr =
     (case exec_stmts W (body version_tag) tr of
        (Inl e, tr') \<Rightarrow>
          if e = OSError then build_versions body W rest tr' else (Inl e, tr')
      | (Inr _, tr') \<Rightarrow> build_versions body W rest tr')"

text \<open>The last two statements of both scripts.\<close>

definition restore_head :: "world \<Rightarrow> string \<Rightarrow> string \<Rightarrow> trace \<Rightarrow> (error + unit) \<times> trace" where
  "restore_head W cpython_repo_dir initial_ref tr =
     (case check_output W (''git checkout '' @ initial_ref) (Some cpython_repo_dir)
             (tr @ [Print (''>>> Restoring head to '' @ initial_ref)]) of
        (Inl e, tr') \<Rightarrow> (Inl e, tr')
      | (Inr _, tr') \<Rightarrow> (Inr (), tr'))"

text \<open>The \<open>if args.pull\<close> statement of both scripts.\<close>

definition pull_step :: "world \<Rightarrow> string \<Rightarrow> bool \<Rightarrow> trace \<Rightarrow> (error + unit) \<times> trace" where
  "pull_step W cpython_repo_dir pull_flag tr =
     (if pull_flag
      then exec_stmts W [Say ''>>> Pulling'', Run ''git pull'' (Some cpython_repo_dir)] tr
      else (Inr (), tr @ [Print ''>>> Skipping pulling'']))"

subsection \<open>\<open>install_cpython.py\<close>\<close>

record args =
  cpython_repo_dir :: string
  minimum_python_version :: "string option"
  maximum_python_version :: "string option"
  pull :: bool

definition tag_steps :: "string \<Rightarrow> string \<Rightarrow> stmt list" where
  "tag_steps dir version_tag =
     [Say (''>>> Getting '' @ version_tag),
      Run ''git add -A'' (Some dir),
      Run ''git reset --hard'' (Some dir),
      Run (''git checkout '' @ version_tag) (Some dir),
      Say (''>>> Configuring '' @ version_tag),
      Run ''./configure --enable-optimizations'' (Some dir),
      Say (''>>> Cleaning '' @ version_tag),
      Run ''make clean'' (Some dir),
      Say (''>>> Making '' @ version_tag),
      Run ''make -j'' (Some dir),
      Say (''>>> Installing '' @ version_tag),
      Run ''make altinstall'' (Some dir)]"

text \<open>
  \<open>__main__\<close> up to the loop: the selected tags and the initial ref, or the exception
  that ends the run.  \<open>os_release\<close> is the content of \<open>/etc/os-release\<close>.
\<close>

definition main_setup ::
  "'v::linorder semantic_version \<Rightarrow> world \<Rightarrow> string \<Rightarrow> args
     \<Rightarrow> (error + string list \<times> string) \<times> trace" where
  "main_setup L W os_release a =
     (case get_versions W (cpython_repo_dir a) [] of
        (Inl e, tr) \<Rightarrow> (Inl e, tr)
      | (Inr versions, tr) \<Rightarrow>
     (case select_versions L versions (minimum_python_version a) (maximum_python_version a) of
        Inl e \<Rightarrow> (Inl e, tr)
      | Inr versions' \<Rightarrow>
     (let version_tags = map fst versions'
      in case check_output W ''git rev-parse HEAD'' (Some (cpython_repo_dir a)) tr of
        (Inl e, tr) \<Rightarrow> (Inl e, tr)
      | (Inr out, tr) \<Rightarrow>
     (case decode out of
        Inl e \<Rightarrow> (Inl e, tr)
      | Inr out_text \<Rightarrow>
     (let initial_ref = strip out_text;
          tr = tr @ [Print (''>>> Initial ref: '' @ initial_ref),
                     Print ''>>> Installing system dependencies'']
      in case detect_distro_like os_release of
        Inl e \<Rightarrow> (Inl e, tr)
      | Inr distro_like \<Rightarrow>
     (case install_system_dependencies W distro_like tr of
        (Inl e, tr) \<Rightarrow> (Inl e, tr)
      | (Inr _, tr) \<Rightarrow>
     (case pull_step W (cpython_repo_dir a) (pull a) tr of
        (Inl e, tr) \<Rightarrow> (Inl e, tr)
      | (Inr _, tr) \<Rightarrow> (Inr (version_tags, initial_ref), tr))))))))"

definition main ::
  "'v::linorder semantic_version \<Rightarrow> world \<Rightarrow> string \<Rightarrow> args \<Rightarrow> (error + unit) \<times> trace" where
  "main L W os_release a =
     (case main_setup L W os_release a of
        (Inl e, tr) \<Rightarrow> (Inl e, tr)
      | (Inr (version_tags, initial_ref), tr) \<Rightarrow>
          (case build_versions (tag_steps (cpython_repo_dir a)) W
                  (sorted_reverse version_tags) tr of
             (Inl e, tr') \<Rightarrow> (Inl e, tr')
           | (Inr _, tr') \<Rightarrow> restore_head W (cpython_repo_dir a) initial_ref tr'))"

subsection \<open>\<open>install_all_minor_versions.py\<close>\<close>

record args_all =
  cpython_repo_dir_all :: string
  minimum_python_version_all :: string
  pull_all :: bool

definition tag_steps_all :: "string \<Rightarrow> string \<Rightarrow> stmt list" where
  "tag_steps_all dir version_tag =
     [Say (''>>> Getting '' @ version_tag),
      Run ''git add -A'' (Some dir),
      Run ''git reset --hard'' (Some dir),
      Run (''git checkout '' @ version_tag) (Some dir),
      Say (''>>> Configuring '' @ version_tag),
      Run ''./configure'' (Some dir),
      Say (''>>> Cleaning '' @ version_tag),
      Run ''make clean'' (Some dir),
      Say (''>>> Making '' @ version_tag),
      Run ''make'' (Some dir),
      Say (''>>> Installing '' @ version_tag),
      Run ''make altinstall'' (Some dir)]"

definition main_all_setup ::
  "'v::linorder semantic_version \<Rightarrow> world \<Rightarrow> args_all
     \<Rightarrow> (error + string list \<times> string) \<times> trace" where
  "main_all_setup L W a =
     (case get_versions W (cpython_repo_dir_all a) [] of
        (Inl e, tr) \<Rightarrow> (Inl e, tr)
      | (Inr versions, tr) \<Rightarrow>
     (case get_latest_minor_versions_all L versions (minimum_python_version_all a) of
        Inl e \<Rightarrow> (Inl e, tr)
      | Inr versions' \<Rightarrow>
     (let version_tags = map fst versions'
      in case check_output W ''git rev-parse HEAD'' (Some (cpython_repo_dir_all a)) tr of
        (Inl e, tr) \<Rightarrow> (Inl e, tr)
      | (Inr out, tr) \<Rightarrow>
     (case decode out of
        Inl e \<Rightarrow> (Inl e, tr)
      | Inr out_text \<Rightarrow>
     (let initial_ref = strip out_text;
          tr = tr @ [Print (''>>> Initial ref: '' @ initial_ref)]
      in case pull_step W (cpython_repo_dir_all a) (pull_all a) tr of
        (Inl e, tr) \<Rightarrow> (Inl e, tr)
      | (Inr _, tr) \<Rightarrow> (Inr (version_tags, initial_ref), tr))))))"

definition main_all ::
  "'v::linorder semantic_version \<Rightarrow> world \<Rightarrow> args_all \<Rightarrow> (error + unit) \<times> trace" where
  "main_all L W a =
     (case main_all_setup L W a of
        (Inl e, tr) \<Rightarrow> (Inl e, tr)
      | (Inr (version_tags, initial_ref), tr) \<Rightarrow>
          (case build_versions (tag_steps_all (cpython_repo_dir_all a)) W
                  (sorted_reverse version_tags) tr of
             (Inl e, tr') \<Rightarrow> (Inl e, tr')
           | (Inr _, tr') \<Rightarrow> restore_head W (cpython_repo_dir_all a) initial_ref tr'))"


section \<open>Notions used to state and prove the properties\<close>

text \<open>The parsed version of a tag: what \<open>normalize_version\<close> hands to the parser.\<close>

definition tag_version :: "'v semantic_version \<Rightarrow> string \<Rightarrow> 'v option" where
  "tag_version L version_tag =
     (case version_tag of
        [] \<Rightarrow> None
      | c # rest \<Rightarrow> if c = CHR ''v'' then Version L rest else Version L version_tag)"

text \<open>The tags that parse, each with its version, in the order of the tag list.\<close>

definition parsed_tags :: "'v semantic_version \<Rightarrow> string list \<Rightarrow> (string \<times> 'v) list" where
  "parsed_tags L tags = drop_unparsed (map (\<lambda>t. (t, tag_version L t)) tags)"

text \<open>The entry that \<open>max\<close> picks in the group of key \<open>k\<close>.\<close>

definition latest_in ::
  "'v::linorder semantic_version \<Rightarrow> (string \<times> 'v) list \<Rightarrow> string \<Rightarrow> string \<times> 'v" where
  "latest_in L xs k =
     (let g = [p \<leftarrow> xs. minor_key L (snd p) = k] in max_from snd (hd g) (tl g))"



text \<open>Reading a decimal numeral back, the inverse of \<open>str_nat\<close>.\<close>

definition digit_val :: "char \<Rightarrow> nat" where
  "digit_val c = of_char c - 48"

definition decimal :: "string \<Rightarrow> nat" where
  "decimal s = foldl (\<lambda>a c. 10 * a + digit_val c) 0 s"

text \<open>The values of the \<open>ID_LIKE=\<close> tokens of an os-release text.\<close>

definition id_like_values :: "string \<Rightarrow> string list" where
  "id_like_values content = [drop 8 line. line \<leftarrow> split content, take 8 line = ''ID_LIKE='']"

text \<open>The argument vectors of the commands run in a trace, in order.\<close>

definition execs :: "trace \<Rightarrow> string list list" where
  "execs tr = concat (map (\<lambda>e. case e of Exec argv cwd \<Rightarrow> [argv] | _ \<Rightarrow> []) tr)"

text \<open>
  The tags whose loop iteration was entered, in order: every iteration starts by printing
  \<open>>>> Getting\<close> and the tag, and no other progress message starts that way.
\<close>

definition getting :: "trace \<Rightarrow> string list" where
  "getting tr =
     concat (map (\<lambda>e. case e of
                Print msg \<Rightarrow> if take 12 msg = ''>>> Getting '' then [drop 12 msg] else []
              | _ \<Rightarrow> []) tr)"


subsection \<open>An instance of the library for concrete runs\<close>

text \<open>
  Versions of the form \<open>MAJOR.MINOR.PATCH\<close> (decimal numerals without leading zeros), as
  triples ordered lexicographically, which is the order of \<open>semantic_version\<close> on such
  versions.  Strings with a prerelease or build suffix are outside this instance; the general
  theorems below hold for every instance of the library.
\<close>

definition is_digit :: "char \<Rightarrow> bool" where
  "is_digit c = (c \<in> set ''0123456789'')"

definition numeric_part :: "string \<Rightarrow> nat option" where
  "numeric_part s =
     (if s \<noteq> [] \<and> list_all is_digit s \<and> (length s = 1 \<or> hd s \<noteq> CHR ''0'')
      then Some (decimal s) else None)"

fun fields_from :: "string \<Rightarrow> string \<Rightarrow> string list" where
  "fields_from cur [] = [cur]"
| "fields_from cur (c # cs) =
     (if c = CHR ''.'' then cur # fields_from [] cs else fields_from (cur @ [c]) cs)"

definition core_Version :: "string \<Rightarrow> (nat \<times> nat \<times> nat) option" where
  "core_Version s =
     (case fields_from [] s of
        [a, b, c] \<Rightarrow>
          (case (numeric_part a, numeric_part b, numeric_part c) of
             (Some x, Some y, Some z) \<Rightarrow> Some (x, y, z)
           | _ \<Rightarrow> None)
      | _ \<Rightarrow> None)"

definition core_semver :: "(nat \<times> nat \<times> nat) semantic_version" where
  "core_semver = \<lparr>Version = core_Version, major = fst, minor = (\<lambda>v. fst (snd v))\<rparr>"

subsection \<open>Worlds and arguments for concrete runs\<close>

text \<open>
  A world given by a table from argument vectors to results, whatever happened before; a
  command that the table does not mention exits with status 0 and no captured bytes.
  \<open>repo_answers\<close> is a repository with the tags \<open>v3.9.1\<close> and \<open>v3.10.2\<close> whose head is
  \<open>abc\<close>.
\<close>

definition answers :: "(string list \<times> proc_result) list \<Rightarrow> world" where
  "answers table tr argv cwd =
     (case map_of table argv of
        Some r \<Rightarrow> r
      | None \<Rightarrow> Exited 0 (Text []) (Text []))"

definition repo_answers :: "(string list \<times> proc_result) list" where
  "repo_answers =
     [([''git'', ''tag''], Exited 0 (Text (''v3.9.1'' @ [CHR 0x0A] @ ''v3.10.2'' @ [CHR 0x0A])) (Text [])),
      ([''git'', ''rev-parse'', ''HEAD''], Exited 0 (Text (''abc'' @ [CHR 0x0A])) (Text []))]"

definition run_args :: "bool \<Rightarrow> args" where
  "run_args p = \<lparr>cpython_repo_dir = ''cpython'', minimum_python_version = Some ''3.0.0'',
                 maximum_python_version = None, pull = p\<rparr>"

text \<open>The parsed command lines \<open>-d cpython --min 3.0.0\<close>, with or without \<open>--pull\<close>.\<close>

definition run_args_all :: "bool \<Rightarrow> args_all" where
  "run_args_all p = \<lparr>cpython_repo_dir_all = ''cpython'', minimum_python_version_all = ''3.0.0'',
                     pull_all = p\<rparr>"





definition undecodable_output :: world where
  "undecodable_output =
     answers (([''git'', ''add'', ''-A''], Exited 1 Undecodable (Text [])) # repo_answers)"

section \<open>Strings, keys and maxima: proofs\<close>

lemma split_from_tokens:
  "\<forall>c\<in>set cur. \<not> isspace c \<Longrightarrow> t \<in> set (split_from cur s) \<Longrightarrow> t \<noteq> [] \<and> (\<forall>c\<in>set t. \<not> isspace c)"
proof (induction s arbitrary: cur)
  case Nil
  then show ?case by (cases "cur = []") simp_all
next
  case (Cons c cs)
  show ?case
  proof (cases "isspace c")
    case True
    show ?thesis
    proof (cases "cur = []")
      case True
      with \<open>isspace c\<close> Cons.prems(2) have "t \<in> set (split_from [] cs)" by simp
      then show ?thesis using Cons.IH [of "[]"] by simp
    next
      case False
      with \<open>isspace c\<close> Cons.prems(2) have "t = cur \<or> t \<in> set (split_from [] cs)" by simp
      then show ?thesis
      proof
        assume "t = cur"
        with False Cons.prems(1) show ?thesis by simp
      next
        assume "t \<in> set (split_from [] cs)"
        then show ?thesis using Cons.IH [of "[]"] by simp
      qed
    qed
  next
    case False
    with Cons.prems(2) have "t \<in> set (split_from (cur @ [c]) cs)" by simp
    moreover from False Cons.prems(1) have "\<forall>x\<in>set (cur @ [c]). \<not> isspace x" by simp
    ultimately show ?thesis using Cons.IH [of "cur @ [c]"] by blast
  qed
qed

lemma split_token: "t \<in> set (split s) \<Longrightarrow> t \<noteq> [] \<and> (\<forall>c\<in>set t. \<not> isspace c)"
  unfolding split_def using split_from_tokens [of "[]" t s] by simp

lemma digit_not_dot: "d < 10 \<Longrightarrow> digit d \<noteq> CHR ''.''"
proof -
  assume "d < 10"
  then have "d \<in> {0,1,2,3,4,5,6,7,8,9}" by auto
  then show ?thesis by (auto simp: digit_def)
qed

lemma digit_val_digit: "d < 10 \<Longrightarrow> digit_val (digit d) = d"
proof -
  assume "d < 10"
  then have "d \<in> {0,1,2,3,4,5,6,7,8,9}" by auto
  then show ?thesis by (auto simp: digit_def digit_val_def)
qed

lemma str_nat_no_dot: "CHR ''.'' \<notin> set (str_nat n)"
proof (induction n rule: str_nat.induct)
  case (1 n)
  show ?case
  proof (cases "n < 10")
    case True
    then show ?thesis using digit_not_dot [of n] by (simp add: str_nat.simps [of n])
  next
    case False
    have "n mod 10 < 10" by simp
    then have "digit (n mod 10) \<noteq> CHR ''.''" by (rule digit_not_dot)
    with False 1 show ?thesis by (simp add: str_nat.simps [of n])
  qed
qed

lemma decimal_str_nat: "decimal (str_nat n) = n"
proof (induction n rule: str_nat.induct)
  case (1 n)
  show ?case
  proof (cases "n < 10")
    case True
    then show ?thesis by (simp add: str_nat.simps [of n] decimal_def digit_val_digit)
  next
    case False
    with 1 have "decimal (str_nat (n div 10)) = n div 10" by simp
    with False show ?thesis
      by (simp add: str_nat.simps [of n] decimal_def digit_val_digit)
  qed
qed

lemma str_nat_inj: "str_nat a = str_nat b \<Longrightarrow> a = b"
proof -
  assume "str_nat a = str_nat b"
  then have "decimal (str_nat a) = decimal (str_nat b)" by simp
  then show "a = b" by (simp only: decimal_str_nat)
qed

lemma minor_key_eq_iff:
  "minor_key L v = minor_key L w \<longleftrightarrow> major L v = major L w \<and> minor L v = minor L w"
proof
  assume "minor_key L v = minor_key L w"
  then have "str_nat (major L v) @ CHR ''.'' # str_nat (minor L v)
           = str_nat (major L w) @ CHR ''.'' # str_nat (minor L w)"
    by (simp add: minor_key_def)
  then have "str_nat (major L v) = str_nat (major L w) \<and> str_nat (minor L v) = str_nat (minor L w)"
    by (simp only: append_Cons_eq_iff [OF str_nat_no_dot str_nat_no_dot])
  then show "major L v = major L w \<and> minor L v = minor L w"
    by (auto dest: str_nat_inj)
next
  assume "major L v = major L w \<and> minor L v = minor L w"
  then show "minor_key L v = minor_key L w" by (simp add: minor_key_def)
qed

lemma max_from_mem: "max_from key b xs \<in> set (b # xs)"
  by (induction xs arbitrary: b) (auto split: if_splits)

lemma max_from_ge_best: "key b \<le> key (max_from key b xs)"
proof (induction xs arbitrary: b)
  case Nil
  show ?case by simp
next
  case (Cons x xs)
  show ?case
  proof (cases "key b < key x")
    case True
    then show ?thesis using Cons [of x] by simp
  next
    case False
    then show ?thesis using Cons [of b] by simp
  qed
qed

lemma max_from_ge: "y \<in> set (b # xs) \<Longrightarrow> key y \<le> key (max_from key b xs)"
proof (induction xs arbitrary: b)
  case Nil
  then show ?case by simp
next
  case (Cons x xs)
  let ?b' = "if key b < key x then x else b"
  have step: "max_from key b (x # xs) = max_from key ?b' xs" by simp
  have b': "key b \<le> key ?b'" "key x \<le> key ?b'" by auto
  from Cons.prems consider "y = b" | "y = x" | "y \<in> set xs" by auto
  then show ?case
  proof cases
    case 1
    then show ?thesis using order_trans [OF b'(1) max_from_ge_best [of key ?b' xs]] unfolding step by simp
  next
    case 2
    then show ?thesis using order_trans [OF b'(2) max_from_ge_best [of key ?b' xs]] unfolding step by simp
  next
    case 3
    then show ?thesis using Cons.IH [of ?b'] unfolding step by simp
  qed
qed

section \<open>Grouping: proofs\<close>

lemma update_as_map:
  "distinct (map fst d) \<Longrightarrow> map_of d k = Some vs \<Longrightarrow>
   AList.update k w d = map (\<lambda>(k', v'). (k', if k' = k then w else v')) d"
proof (induction d)
  case Nil
  then show ?case by simp
next
  case (Cons p d)
  obtain k0 v0 where p: "p = (k0, v0)" by (cases p)
  show ?case
  proof (cases "k0 = k")
    case True
    with Cons.prems(1) p have "k \<notin> fst ` set d" by simp
    then have "map (\<lambda>(k', v'). (k', if k' = k then w else v')) d = d"
      by (induction d) (auto simp: case_prod_beta)
    with True p show ?thesis by simp
  next
    case False
    with Cons p show ?thesis by simp
  qed
qed

lemma update_empty_group:
  "AList.update k [] (map (\<lambda>k. (k, [])) ks) = map (\<lambda>k. (k, [])) (if k \<in> set ks then ks else ks @ [k])"
  by (induction ks) auto

lemma init_groups:
  "distinct ks \<Longrightarrow>
   \<exists>ks'. distinct ks' \<and> set ks' = set ks \<union> kf ` set xs \<and>
     foldl (\<lambda>d p. AList.update (kf p) [] d) (map (\<lambda>k. (k, [] :: 'g list)) ks) xs = map (\<lambda>k. (k, [])) ks'"
proof (induction xs arbitrary: ks)
  case Nil
  then show ?case by (intro exI [of _ ks]) simp
next
  case (Cons x xs)
  let ?ks1 = "if kf x \<in> set ks then ks else ks @ [kf x]"
  from Cons.prems have d1: "distinct ?ks1" by simp
  from Cons.IH [OF d1] obtain ks' where all:
    "distinct ks' \<and> set ks' = set ?ks1 \<union> kf ` set xs \<and>
     foldl (\<lambda>d p. AList.update (kf p) [] d) (map (\<lambda>k. (k, [] :: 'g list)) ?ks1) xs = map (\<lambda>k. (k, [])) ks'" ..
  have ks': "distinct ks'" "set ks' = set ?ks1 \<union> kf ` set xs"
    "foldl (\<lambda>d p. AList.update (kf p) [] d) (map (\<lambda>k. (k, [] :: 'g list)) ?ks1) xs = map (\<lambda>k. (k, [])) ks'"
    using all by (rule conjunct1, rule conjunct2 [THEN conjunct1], rule conjunct2 [THEN conjunct2])
  have "foldl (\<lambda>d p. AList.update (kf p) [] d) (map (\<lambda>k. (k, [] :: 'g list)) ks) (x # xs)
      = foldl (\<lambda>d p. AList.update (kf p) [] d) (map (\<lambda>k. (k, [])) ?ks1) xs"
    by (simp only: foldl_Cons update_empty_group)
  then have f: "foldl (\<lambda>d p. AList.update (kf p) [] d) (map (\<lambda>k. (k, [] :: 'g list)) ks) (x # xs)
      = map (\<lambda>k. (k, [])) ks'"
    by (simp only: ks'(3))
  have s: "set ks' = set ks \<union> kf ` set (x # xs)" using ks'(2) by auto
  show ?case
    by (rule exI [of _ ks']) (intro conjI ks'(1) s f)
qed

lemma append_groups:
  "distinct (map fst d) \<Longrightarrow> kf ` set xs \<subseteq> fst ` set d \<Longrightarrow>
   foldl_result (\<lambda>d p. dict_append d (kf p) p) d xs
     = Inr (map (\<lambda>(k, vs). (k, vs @ [p \<leftarrow> xs. kf p = k])) d)"
proof (induction xs arbitrary: d)
  case Nil
  then show ?case by (simp add: case_prod_beta)
next
  case (Cons x xs)
  from Cons.prems(2) have "kf x \<in> fst ` set d" by simp
  then obtain vs where vs: "map_of d (kf x) = Some vs"
    by (metis domD dom_map_of_conv_image_fst)
  let ?d1 = "map (\<lambda>(k', v'). (k', if k' = kf x then vs @ [x] else v')) d"
  have app: "dict_append d (kf x) x = Inr ?d1"
    using vs update_as_map [OF Cons.prems(1) vs] by (simp add: dict_append_def)
  have keys: "map fst ?d1 = map fst d" by (simp add: case_prod_beta comp_def)
  have d1: "distinct (map fst ?d1)" using Cons.prems(1) by (simp only: keys)
  have sub: "kf ` set xs \<subseteq> fst ` set ?d1"
  proof -
    have "fst ` set ?d1 = set (map fst ?d1)" by (simp only: set_map)
    also have "\<dots> = fst ` set d" by (simp only: keys set_map)
    finally show ?thesis using Cons.prems(2) by auto
  qed
  have vsd: "\<And>k v. (k, v) \<in> set d \<Longrightarrow> k = kf x \<Longrightarrow> v = vs"
    using vs Cons.prems(1) by (metis map_of_is_SomeI option.inject)
  have "map (\<lambda>(k, vs). (k, vs @ [p \<leftarrow> xs. kf p = k])) ?d1
      = map (\<lambda>(k, vs). (k, vs @ [p \<leftarrow> x # xs. kf p = k])) d"
    using vsd by (auto simp: case_prod_beta)
  then show ?case using app Cons.IH [OF d1 sub] by simp
qed

lemma group_maxes:
  "\<forall>k\<in>set ks. [p \<leftarrow> xs. kf p = k] \<noteq> [] \<Longrightarrow>
   map_result (\<lambda>(_, g). py_max key g) (map (\<lambda>k. (k, [p \<leftarrow> xs. kf p = k])) ks)
     = Inr (map (\<lambda>k. max_from key (hd [p \<leftarrow> xs. kf p = k]) (tl [p \<leftarrow> xs. kf p = k])) ks)"
proof (induction ks)
  case Nil
  then show ?case by simp
next
  case (Cons k ks)
  then have ne: "[p \<leftarrow> xs. kf p = k] \<noteq> []" by simp
  then obtain y ys where g: "[p \<leftarrow> xs. kf p = k] = y # ys" by (cases "[p \<leftarrow> xs. kf p = k]") auto
  from Cons have "map_result (\<lambda>(_, g). py_max key g) (map (\<lambda>k. (k, [p \<leftarrow> xs. kf p = k])) ks)
     = Inr (map (\<lambda>k. max_from key (hd [p \<leftarrow> xs. kf p = k]) (tl [p \<leftarrow> xs. kf p = k])) ks)" by simp
  then show ?case using g by (simp add: py_max_def)
qed

lemma group_and_max_char:
  "\<exists>ks. distinct ks \<and> set ks = (\<lambda>p. minor_key L (snd p)) ` set xs \<and>
     group_and_max L xs = Inr (map (latest_in L xs) ks)"
proof -
  let ?kf = "\<lambda>p. minor_key L (snd p)"
  have "distinct ([]::string list)" by simp
  from init_groups [OF this, of ?kf xs] obtain ks where ks:
    "distinct ks" "set ks = ?kf ` set xs"
    "foldl (\<lambda>d p. AList.update (?kf p) [] d) [] xs = map (\<lambda>k. (k, [] :: (string \<times> 'a) list)) ks"
    by auto
  let ?d0 = "map (\<lambda>k. (k, [] :: (string \<times> 'a) list)) ks"
  have k0: "map fst ?d0 = ks" by (simp add: comp_def)
  have d0: "distinct (map fst ?d0)" using ks(1) by (simp only: k0)
  have sub: "?kf ` set xs \<subseteq> fst ` set ?d0" using ks(2) by (simp add: image_image)
  have app: "foldl_result (\<lambda>d p. dict_append d (?kf p) p) ?d0 xs
     = Inr (map (\<lambda>k. (k, [p \<leftarrow> xs. ?kf p = k])) ks)"
    using append_groups [OF d0 sub] by (simp add: comp_def)
  have ne: "\<forall>k\<in>set ks. [p \<leftarrow> xs. ?kf p = k] \<noteq> []"
    using ks(2) by (auto simp: filter_empty_conv)
  have eq1: "(\<lambda>d (version_tag, version). AList.update (minor_key L version) [] d)
      = (\<lambda>(d :: (string \<times> (string \<times> 'a) list) list) p. AList.update (?kf p) [] d)"
    by (simp add: fun_eq_iff split_def)
  have eq2: "(\<lambda>d (version_tag, version). dict_append d (minor_key L version) (version_tag, version))
      = (\<lambda>(d :: (string \<times> (string \<times> 'a) list) list) p. dict_append d (?kf p) p)"
    by (simp add: fun_eq_iff split_def)
  have "group_and_max L xs =
      (case foldl_result (\<lambda>d p. dict_append d (?kf p) p)
              (foldl (\<lambda>d p. AList.update (?kf p) [] d) [] xs) xs of
         Inl e \<Rightarrow> Inl e
       | Inr d' \<Rightarrow> map_result (\<lambda>(_, g). py_max snd g) d')"
    by (simp only: group_and_max_def Let_def eq1 eq2)
  also have "\<dots> = Inr (map (\<lambda>k. max_from snd (hd [p \<leftarrow> xs. ?kf p = k]) (tl [p \<leftarrow> xs. ?kf p = k])) ks)"
    by (simp only: ks(3) app sum.case group_maxes [OF ne])
  also have "\<dots> = Inr (map (latest_in L xs) ks)"
    by (simp add: latest_in_def Let_def)
  finally have "group_and_max L xs = Inr (map (latest_in L xs) ks)" .
  with ks(1,2) show ?thesis by blast
qed

section \<open>Selection: proofs\<close>

lemma normalize_version_nonempty:
  "t \<noteq> [] \<Longrightarrow> normalize_version L t = Inr (t, tag_version L t)"
  by (cases t) (simp_all add: normalize_version_def tag_version_def safe_parse_version_def
      split: option.split)

lemma map_result_normalize_ok:
  "[] \<notin> set tags \<Longrightarrow>
   map_result (normalize_version L) tags = Inr (map (\<lambda>t. (t, tag_version L t)) tags)"
proof (induction tags)
  case Nil
  show ?case by simp
next
  case (Cons t tags)
  then have "t \<noteq> []" and "[] \<notin> set tags" by auto
  with Cons.IH show ?case by (simp add: normalize_version_nonempty)
qed

lemma map_result_normalize_fail:
  "[] \<in> set tags \<Longrightarrow> map_result (normalize_version L) tags = Inl IndexError"
proof (induction tags)
  case Nil
  then show ?case by simp
next
  case (Cons t tags)
  show ?case
  proof (cases "t = []")
    case True
    then show ?thesis by (simp add: normalize_version_def)
  next
    case False
    with Cons have "map_result (normalize_version L) tags = Inl IndexError" by simp
    with False show ?thesis by (simp add: normalize_version_nonempty)
  qed
qed

lemma set_parsed_tags:
  "set (parsed_tags L tags) = {(t, v). t \<in> set tags \<and> tag_version L t = Some v}"
  by (induction tags) (auto simp: parsed_tags_def drop_unparsed_def)

lemma latest_in_props:
  assumes "k \<in> (\<lambda>p. minor_key L (snd p)) ` set xs"
  shows "latest_in L xs k \<in> set xs"
    and "minor_key L (snd (latest_in L xs k)) = k"
    and "\<And>p. p \<in> set xs \<Longrightarrow> minor_key L (snd p) = k \<Longrightarrow> snd p \<le> snd (latest_in L xs k)"
proof -
  let ?g = "[p \<leftarrow> xs. minor_key L (snd p) = k]"
  from assms have "?g \<noteq> []" by (auto simp: filter_empty_conv)
  then obtain y ys where g: "?g = y # ys" by (cases ?g) auto
  have l: "latest_in L xs k = max_from snd y ys" by (simp add: latest_in_def Let_def g)
  have "max_from snd y ys \<in> set ?g" using max_from_mem [of snd y ys] by (simp only: g)
  then have m: "latest_in L xs k \<in> set ?g" by (simp only: l)
  from m show "latest_in L xs k \<in> set xs" by simp
  from m show "minor_key L (snd (latest_in L xs k)) = k" by simp
  fix p assume "p \<in> set xs" "minor_key L (snd p) = k"
  then have "p \<in> set ?g" by simp
  then have "p \<in> set (y # ys)" by (simp only: g)
  then show "snd p \<le> snd (latest_in L xs k)" using max_from_ge [of p y ys snd] by (simp only: l)
qed

lemma glmv_fail: "[] \<in> set tags \<Longrightarrow> get_latest_minor_versions L tags = Inl IndexError"
  by (simp add: get_latest_minor_versions_def map_result_normalize_fail)

lemma glmv_ok:
  "[] \<notin> set tags \<Longrightarrow> get_latest_minor_versions L tags = group_and_max L (parsed_tags L tags)"
  by (simp add: get_latest_minor_versions_def map_result_normalize_ok parsed_tags_def)

lemma glmv_Inr:
  assumes "get_latest_minor_versions L tags = Inr out"
  shows "[] \<notin> set tags"
    and "\<exists>ks. distinct ks \<and> set ks = (\<lambda>p. minor_key L (snd p)) ` set (parsed_tags L tags) \<and>
           out = map (latest_in L (parsed_tags L tags)) ks"
proof -
  show ne: "[] \<notin> set tags"
  proof
    assume "[] \<in> set tags"
    from glmv_fail [OF this, of L] assms show False by simp
  qed
  from group_and_max_char [of L "parsed_tags L tags"] obtain ks where ks:
    "distinct ks \<and> set ks = (\<lambda>p. minor_key L (snd p)) ` set (parsed_tags L tags) \<and>
     group_and_max L (parsed_tags L tags) = Inr (map (latest_in L (parsed_tags L tags)) ks)" ..
  then have "out = map (latest_in L (parsed_tags L tags)) ks"
    using assms glmv_ok [OF ne, of L] by simp
  with ks show "\<exists>ks. distinct ks \<and> set ks = (\<lambda>p. minor_key L (snd p)) ` set (parsed_tags L tags) \<and>
           out = map (latest_in L (parsed_tags L tags)) ks" by blast
qed

lemma glmv_entries:
  assumes "get_latest_minor_versions L tags = Inr out" and "(t, v) \<in> set out"
  shows "t \<in> set tags" and "tag_version L t = Some v"
    and "\<And>t' v'. t' \<in> set tags \<Longrightarrow> tag_version L t' = Some v' \<Longrightarrow>
           major L v' = major L v \<Longrightarrow> minor L v' = minor L v \<Longrightarrow> v' \<le> v"
proof -
  let ?P = "parsed_tags L tags"
  from glmv_Inr(2) [OF assms(1)] obtain ks where ks:
    "distinct ks \<and> set ks = (\<lambda>p. minor_key L (snd p)) ` set ?P \<and> out = map (latest_in L ?P) ks" ..
  with assms(2) obtain k where k: "k \<in> (\<lambda>p. minor_key L (snd p)) ` set ?P" "(t, v) = latest_in L ?P k"
    by auto
  from latest_in_props(1) [OF k(1)] k(2) have "(t, v) \<in> set ?P" by simp
  then show "t \<in> set tags" "tag_version L t = Some v" by (simp_all add: set_parsed_tags)
  fix t' v'
  assume a: "t' \<in> set tags" "tag_version L t' = Some v'" "major L v' = major L v" "minor L v' = minor L v"
  then have in_P: "(t', v') \<in> set ?P" by (simp add: set_parsed_tags)
  have "minor_key L v = k" using latest_in_props(2) [OF k(1)] k(2) by (metis snd_conv)
  then have "minor_key L (snd (t', v')) = k" using a(3,4) by (simp add: minor_key_def)
  from latest_in_props(3) [OF k(1) in_P this] k(2) show "v' \<le> v" by (metis snd_conv)
qed

lemma glmv_distinct:
  assumes "get_latest_minor_versions L tags = Inr out"
  shows "distinct (map (\<lambda>(t, v). (major L v, minor L v)) out)"
proof -
  let ?P = "parsed_tags L tags"
  from glmv_Inr(2) [OF assms(1)] obtain ks where ks:
    "distinct ks \<and> set ks = (\<lambda>p. minor_key L (snd p)) ` set ?P \<and> out = map (latest_in L ?P) ks" ..
  let ?f = "\<lambda>k. (\<lambda>(t, v). (major L v, minor L v)) (latest_in L ?P k)"
  have "inj_on ?f (set ks)"
  proof (rule inj_onI)
    fix a b assume ab: "a \<in> set ks" "b \<in> set ks" "?f a = ?f b"
    from ab(1,2) ks have ka: "a \<in> (\<lambda>p. minor_key L (snd p)) ` set ?P"
      and kb: "b \<in> (\<lambda>p. minor_key L (snd p)) ` set ?P" by simp_all
    from ab(3) have "minor_key L (snd (latest_in L ?P a)) = minor_key L (snd (latest_in L ?P b))"
      by (simp add: minor_key_eq_iff case_prod_beta)
    then show "a = b" by (simp only: latest_in_props(2) [OF ka] latest_in_props(2) [OF kb])
  qed
  with ks have "distinct (map ?f ks)" by (simp add: distinct_map)
  moreover have "map (\<lambda>(t, v). (major L v, minor L v)) out = map ?f ks" using ks by simp
  ultimately show ?thesis by simp
qed

section \<open>Bound filters: proofs\<close>

lemma at_least_Some: "Version L b = Some bv \<Longrightarrow> at_least L b p = Inr (bv \<le> snd p)"
  by (cases p) (simp add: at_least_def)

lemma at_least_None: "Version L b = None \<Longrightarrow> at_least L b p = Inl (Invalid_version b)"
  by (cases p) (simp add: at_least_def)

lemma at_most_Some: "Version L b = Some bv \<Longrightarrow> at_most L b p = Inr (snd p \<le> bv)"
  by (cases p) (simp add: at_most_def)

lemma at_most_None: "Version L b = None \<Longrightarrow> at_most L b p = Inl (Invalid_version b)"
  by (cases p) (simp add: at_most_def)

lemma filter_result_at_least_Some:
  "Version L b = Some bv \<Longrightarrow> filter_result (at_least L b) xs = Inr [p \<leftarrow> xs. bv \<le> snd p]"
  by (induction xs) (simp_all add: at_least_Some)

lemma filter_result_at_least_None:
  "Version L b = None \<Longrightarrow>
   filter_result (at_least L b) xs = (if xs = [] then Inr [] else Inl (Invalid_version b))"
  by (cases xs) (simp_all add: at_least_None)

lemma filter_result_at_most_Some:
  "Version L b = Some bv \<Longrightarrow> filter_result (at_most L b) xs = Inr [p \<leftarrow> xs. snd p \<le> bv]"
  by (induction xs) (simp_all add: at_most_Some)

lemma filter_result_at_most_None:
  "Version L b = None \<Longrightarrow>
   filter_result (at_most L b) xs = (if xs = [] then Inr [] else Inl (Invalid_version b))"
  by (cases xs) (simp_all add: at_most_None)

lemma filter_at_least_Inr:
  assumes "filter_result (at_least L b) xs = Inr ys" and "p \<in> set ys"
  shows "p \<in> set xs" and "\<exists>bv. Version L b = Some bv \<and> bv \<le> snd p"
proof -
  have "p \<in> set xs \<and> (\<exists>bv. Version L b = Some bv \<and> bv \<le> snd p)"
  proof (cases "Version L b")
    case None
    from assms(1) filter_result_at_least_None [OF None, of xs] have "ys = []"
      by (cases "xs = []") simp_all
    with assms(2) show ?thesis by simp
  next
    case (Some bv)
    from assms(1) filter_result_at_least_Some [OF Some, of xs]
    have "ys = [p \<leftarrow> xs. bv \<le> snd p]" by simp
    with assms(2) Some show ?thesis by simp
  qed
  then show "p \<in> set xs" and "\<exists>bv. Version L b = Some bv \<and> bv \<le> snd p" by simp_all
qed

lemma filter_at_most_Inr:
  assumes "filter_result (at_most L b) xs = Inr ys" and "p \<in> set ys"
  shows "p \<in> set xs" and "\<exists>bv. Version L b = Some bv \<and> snd p \<le> bv"
proof -
  have "p \<in> set xs \<and> (\<exists>bv. Version L b = Some bv \<and> snd p \<le> bv)"
  proof (cases "Version L b")
    case None
    from assms(1) filter_result_at_most_None [OF None, of xs] have "ys = []"
      by (cases "xs = []") simp_all
    with assms(2) show ?thesis by simp
  next
    case (Some bv)
    from assms(1) filter_result_at_most_Some [OF Some, of xs]
    have "ys = [p \<leftarrow> xs. snd p \<le> bv]" by simp
    with assms(2) Some show ?thesis by simp
  qed
  then show "p \<in> set xs" and "\<exists>bv. Version L b = Some bv \<and> snd p \<le> bv" by simp_all
qed

lemma select_versions_Inr:
  assumes "select_versions L tags lo hi = Inr out"
  shows "\<exists>vs vs'. get_latest_minor_versions L tags = Inr vs \<and>
           (case lo of None \<Rightarrow> Inr vs | Some l \<Rightarrow> filter_result (at_least L l) vs) = Inr vs' \<and>
           (case hi of None \<Rightarrow> Inr vs' | Some h \<Rightarrow> filter_result (at_most L h) vs') = Inr out"
proof (cases "get_latest_minor_versions L tags")
  case (Inl e)
  with assms show ?thesis by (simp add: select_versions_def)
next
  case (Inr vs)
  note g = this
  show ?thesis
  proof (cases "case lo of None \<Rightarrow> Inr vs | Some l \<Rightarrow> filter_result (at_least L l) vs")
    case (Inl e)
    with assms g show ?thesis by (simp add: select_versions_def)
  next
    case (Inr vs')
    with assms g have
      "(case hi of None \<Rightarrow> Inr vs' | Some h \<Rightarrow> filter_result (at_most L h) vs') = Inr out"
      by (simp add: select_versions_def)
    with g Inr show ?thesis by blast
  qed
qed

lemma select_versions_entry:
  assumes "select_versions L tags lo hi = Inr out" and "p \<in> set out"
  shows "\<exists>vs. get_latest_minor_versions L tags = Inr vs \<and> p \<in> set vs"
    and "\<And>l. lo = Some l \<Longrightarrow> \<exists>a. Version L l = Some a \<and> a \<le> snd p"
    and "\<And>h. hi = Some h \<Longrightarrow> \<exists>b. Version L h = Some b \<and> snd p \<le> b"
proof -
  from select_versions_Inr [OF assms(1)] obtain vs vs' where s:
    "get_latest_minor_versions L tags = Inr vs"
    "(case lo of None \<Rightarrow> Inr vs | Some l \<Rightarrow> filter_result (at_least L l) vs) = Inr vs'"
    "(case hi of None \<Rightarrow> Inr vs' | Some h \<Rightarrow> filter_result (at_most L h) vs') = Inr out"
    by blast
  have p': "p \<in> set vs'"
  proof (cases hi)
    case None
    with s(3) assms(2) show ?thesis by simp
  next
    case (Some h)
    with s(3) have "filter_result (at_most L h) vs' = Inr out" by simp
    from filter_at_most_Inr(1) [OF this assms(2)] show ?thesis .
  qed
  have pv: "p \<in> set vs"
  proof (cases lo)
    case None
    with s(2) p' show ?thesis by simp
  next
    case (Some l)
    with s(2) have "filter_result (at_least L l) vs = Inr vs'" by simp
    from filter_at_least_Inr(1) [OF this p'] show ?thesis .
  qed
  with s(1) show "\<exists>vs. get_latest_minor_versions L tags = Inr vs \<and> p \<in> set vs" by blast
  {
    fix l assume "lo = Some l"
    with s(2) have "filter_result (at_least L l) vs = Inr vs'" by simp
    from filter_at_least_Inr(2) [OF this p'] show "\<exists>a. Version L l = Some a \<and> a \<le> snd p" .
  }
  {
    fix h assume "hi = Some h"
    with s(3) have "filter_result (at_most L h) vs' = Inr out" by simp
    from filter_at_most_Inr(2) [OF this assms(2)] show "\<exists>b. Version L h = Some b \<and> snd p \<le> b" .
  }
qed

lemma group_and_max_subset:
  assumes "group_and_max L xs = Inr out"
  shows "set out \<subseteq> set xs"
proof
  fix p assume p: "p \<in> set out"
  from group_and_max_char [of L xs] obtain ks where ks:
    "distinct ks \<and> set ks = (\<lambda>p. minor_key L (snd p)) ` set xs \<and>
     group_and_max L xs = Inr (map (latest_in L xs) ks)" ..
  with assms have "out = map (latest_in L xs) ks" by simp
  with p obtain k where k: "k \<in> set ks" "p = latest_in L xs k" by auto
  from k(1) ks have "k \<in> (\<lambda>p. minor_key L (snd p)) ` set xs" by simp
  from latest_in_props(1) [OF this] k(2) show "p \<in> set xs" by simp
qed

lemma glmv_all_entry:
  assumes "get_latest_minor_versions_all L tags m = Inr out" and "p \<in> set out"
  shows "p \<in> set (parsed_tags L tags)" and "\<exists>a. Version L m = Some a \<and> a \<le> snd p"
proof -
  have ne: "[] \<notin> set tags"
  proof
    assume "[] \<in> set tags"
    from map_result_normalize_fail [OF this, of L] assms(1) show False
      by (simp add: get_latest_minor_versions_all_def)
  qed
  from assms(1) map_result_normalize_ok [OF ne, of L]
  have a: "(case filter_result (at_least L m) (parsed_tags L tags) of
              Inl e \<Rightarrow> Inl e | Inr vs \<Rightarrow> group_and_max L vs) = Inr out"
    by (simp add: get_latest_minor_versions_all_def parsed_tags_def)
  then obtain vs where vs: "filter_result (at_least L m) (parsed_tags L tags) = Inr vs"
    "group_and_max L vs = Inr out"
    by (cases "filter_result (at_least L m) (parsed_tags L tags)") simp_all
  from group_and_max_subset [OF vs(2)] assms(2) have pv: "p \<in> set vs" by blast
  from filter_at_least_Inr(1) [OF vs(1) pv] show "p \<in> set (parsed_tags L tags)" .
  from filter_at_least_Inr(2) [OF vs(1) pv] show "\<exists>a. Version L m = Some a \<and> a \<le> snd p" .
qed

section \<open>The minimum filter and the grouping commute: proofs\<close>

lemma max_from_filter_keep:
  fixes key :: "'a \<Rightarrow> 'k::linorder"
  assumes "b \<le> key y"
  shows "max_from key y [p \<leftarrow> ys. b \<le> key p] = max_from key y ys"
  using assms
proof (induction ys arbitrary: y)
  case Nil
  show ?case by simp
next
  case (Cons z zs)
  show ?case
  proof (cases "b \<le> key z")
    case True
    let ?y' = "if key y < key z then z else y"
    have "b \<le> key ?y'" using True Cons.prems by simp
    from Cons.IH [OF this] True show ?thesis by simp
  next
    case False
    then have "\<not> key y < key z" using Cons.prems by auto
    with False Cons.IH [OF Cons.prems] show ?thesis by simp
  qed
qed

lemma max_from_filter_skip:
  fixes key :: "'a \<Rightarrow> 'k::linorder"
  assumes "\<not> b \<le> key y" and "[p \<leftarrow> ys. b \<le> key p] \<noteq> []"
  shows "max_from key (hd [p \<leftarrow> ys. b \<le> key p]) (tl [p \<leftarrow> ys. b \<le> key p]) = max_from key y ys"
  using assms
proof (induction ys arbitrary: y)
  case Nil
  then show ?case by simp
next
  case (Cons z zs)
  show ?case
  proof (cases "b \<le> key z")
    case True
    with Cons.prems(1) have lt: "key y < key z" by auto
    from True have "max_from key z [p \<leftarrow> zs. b \<le> key p] = max_from key z zs"
      by (rule max_from_filter_keep)
    with True lt show ?thesis by simp
  next
    case False
    let ?y' = "if key y < key z then z else y"
    have n: "\<not> b \<le> key ?y'" using False Cons.prems(1) by simp
    from Cons.prems(2) False have ne: "[p \<leftarrow> zs. b \<le> key p] \<noteq> []" by simp
    from Cons.IH [OF n ne] False show ?thesis by simp
  qed
qed

lemma max_from_filter:
  fixes key :: "'a \<Rightarrow> 'k::linorder"
  assumes "[p \<leftarrow> y # ys. b \<le> key p] \<noteq> []"
  shows "max_from key (hd [p \<leftarrow> y # ys. b \<le> key p]) (tl [p \<leftarrow> y # ys. b \<le> key p])
       = max_from key y ys"
proof (cases "b \<le> key y")
  case True
  then show ?thesis using max_from_filter_keep [of b key y ys] by simp
next
  case False
  with assms have "[p \<leftarrow> ys. b \<le> key p] \<noteq> []" by simp
  from max_from_filter_skip [OF False this] False show ?thesis by simp
qed

lemma latest_in_filter:
  assumes "k \<in> (\<lambda>p. minor_key L (snd p)) ` set [p \<leftarrow> xs. b \<le> snd p]"
  shows "latest_in L [p \<leftarrow> xs. b \<le> snd p] k = latest_in L xs k"
proof -
  let ?g = "[p \<leftarrow> xs. minor_key L (snd p) = k]"
  have comm: "[p \<leftarrow> [p \<leftarrow> xs. b \<le> snd p]. minor_key L (snd p) = k] = [p \<leftarrow> ?g. b \<le> snd p]"
    by (induction xs) simp_all
  from assms obtain q where q: "q \<in> set xs" "b \<le> snd q" "minor_key L (snd q) = k" by auto
  then have ne: "[p \<leftarrow> ?g. b \<le> snd p] \<noteq> []"
    by (auto simp: filter_empty_conv)
  from q have "?g \<noteq> []" by (auto simp: filter_empty_conv)
  then obtain y ys where g: "?g = y # ys" by (cases ?g) auto
  from ne have ne': "[p \<leftarrow> y # ys. b \<le> snd p] \<noteq> []" unfolding g .
  have "latest_in L [p \<leftarrow> xs. b \<le> snd p] k
      = max_from snd (hd [p \<leftarrow> y # ys. b \<le> snd p]) (tl [p \<leftarrow> y # ys. b \<le> snd p])"
    by (simp only: latest_in_def Let_def comm g)
  also have "\<dots> = max_from snd y ys" using ne' by (rule max_from_filter)
  also have "\<dots> = latest_in L xs k" by (simp only: latest_in_def Let_def g list.sel)
  finally show ?thesis .
qed

lemma minimum_filter_sets:
  fixes L :: "'v::linorder semantic_version"
  assumes ks: "set ks = (\<lambda>p. minor_key L (snd p)) ` set xs"
    and ks': "set ks' = (\<lambda>p. minor_key L (snd p)) ` set [p \<leftarrow> xs. b \<le> snd p]"
  shows "set (map (latest_in L [p \<leftarrow> xs. b \<le> snd p]) ks')
       = set [q \<leftarrow> map (latest_in L xs) ks. b \<le> snd q]"
proof (intro set_eqI iffI)
  fix x assume "x \<in> set (map (latest_in L [p \<leftarrow> xs. b \<le> snd p]) ks')"
  then obtain k where k: "k \<in> set ks'" "x = latest_in L [p \<leftarrow> xs. b \<le> snd p] k" by auto
  from k(1) ks' have kin: "k \<in> (\<lambda>p. minor_key L (snd p)) ` set [p \<leftarrow> xs. b \<le> snd p]" by simp
  from latest_in_filter [OF kin] k(2) have x: "x = latest_in L xs k" by simp
  from latest_in_props(1) [OF kin] k(2) have "x \<in> set [p \<leftarrow> xs. b \<le> snd p]" by simp
  then have bx: "b \<le> snd x" by simp
  from kin have "k \<in> (\<lambda>p. minor_key L (snd p)) ` set xs" by auto
  with ks have "k \<in> set ks" by simp
  with x bx show "x \<in> set [q \<leftarrow> map (latest_in L xs) ks. b \<le> snd q]" by auto
next
  fix x assume "x \<in> set [q \<leftarrow> map (latest_in L xs) ks. b \<le> snd q]"
  then obtain k where k: "k \<in> set ks" "x = latest_in L xs k" "b \<le> snd x" by auto
  from k(1) ks have kin: "k \<in> (\<lambda>p. minor_key L (snd p)) ` set xs" by simp
  from latest_in_props(1) [OF kin] k(2) have xin: "x \<in> set xs" by simp
  from latest_in_props(2) [OF kin] k(2) have xk: "minor_key L (snd x) = k" by simp
  from xin k(3) have "x \<in> set [p \<leftarrow> xs. b \<le> snd p]" by simp
  with xk have kin': "k \<in> (\<lambda>p. minor_key L (snd p)) ` set [p \<leftarrow> xs. b \<le> snd p]" by force
  with ks' have "k \<in> set ks'" by simp
  moreover from latest_in_filter [OF kin'] k(2)
  have "x = latest_in L [p \<leftarrow> xs. b \<le> snd p] k" by simp
  ultimately show "x \<in> set (map (latest_in L [p \<leftarrow> xs. b \<le> snd p]) ks')" by auto
qed

section \<open>Minor lines and bounds: proofs\<close>





section \<open>Evaluating the selection on concrete tags\<close>

lemmas core_eval = core_semver_def core_Version_def numeric_part_def is_digit_def decimal_def
  digit_val_def

lemmas select_eval = get_latest_minor_versions_def normalize_version_def safe_parse_version_def
  drop_unparsed_def group_and_max_def minor_key_def dict_append_def py_max_def
  str_nat.simps digit_def

section \<open>Properties of the tag selection\<close>

text \<open>
  Claim C7.  For every list of tag strings, also with duplicate or equal-version tags, each
  entry that \<open>get_latest_minor_versions\<close> returns is a tag of the list with its parsed
  version, that version is the maximum among all parseable tags of the list with the same
  (major, minor) pair, and no two entries have the same (major, minor) pair.
\<close>

theorem get_latest_minor_versions_maximum:
  assumes "get_latest_minor_versions L tags = Inr out"
  shows "(\<forall>(t, v) \<in> set out.
            t \<in> set tags \<and> tag_version L t = Some v \<and>
            (\<forall>t' \<in> set tags. \<forall>v'.
               tag_version L t' = Some v' \<and> major L v' = major L v \<and> minor L v' = minor L v
               \<longrightarrow> v' \<le> v))
         \<and> distinct (map (\<lambda>(t, v). (major L v, minor L v)) out)"
proof (intro conjI ballI)
  fix p assume p: "p \<in> set out"
  obtain t v where tv: "p = (t, v)" by (cases p)
  with p have m: "(t, v) \<in> set out" by simp
  have "t \<in> set tags \<and> tag_version L t = Some v \<and>
        (\<forall>t' \<in> set tags. \<forall>v'.
           tag_version L t' = Some v' \<and> major L v' = major L v \<and> minor L v' = minor L v
           \<longrightarrow> v' \<le> v)"
    using glmv_entries(1) [OF assms m] glmv_entries(2) [OF assms m] glmv_entries(3) [OF assms m]
    by blast
  then show "case p of (t, v) \<Rightarrow>
        t \<in> set tags \<and> tag_version L t = Some v \<and>
        (\<forall>t' \<in> set tags. \<forall>v'.
           tag_version L t' = Some v' \<and> major L v' = major L v \<and> minor L v' = minor L v
           \<longrightarrow> v' \<le> v)"
    unfolding tv prod.case .
next
  show "distinct (map (\<lambda>(t, v). (major L v, minor L v)) out)"
    using assms by (rule glmv_distinct)
qed

theorem get_latest_minor_versions_maximum_witness:
  "get_latest_minor_versions core_semver [''v3.8.1'', ''v3.8.5'', ''3.8.5'', ''foo'', ''v3.9.0'']
     = Inr [(''v3.8.5'', (3, 8, 5)), (''v3.9.0'', (3, 9, 0))]
   \<and> distinct (map (\<lambda>(t, v). (major core_semver v, minor core_semver v))
        [(''v3.8.5'', (3, 8, 5)), (''v3.9.0'', (3 :: nat, 9 :: nat, 0 :: nat))])"
proof -
  have e: "get_latest_minor_versions core_semver [''v3.8.1'', ''v3.8.5'', ''3.8.5'', ''foo'', ''v3.9.0'']
     = Inr [(''v3.8.5'', (3, 8, 5)), (''v3.9.0'', (3, 9, 0))]"
    by (simp add: select_eval core_eval)
  from get_latest_minor_versions_maximum [OF e] e show ?thesis by blast
qed




text \<open>
  Claim C6.  For every list of tag strings and every minimum and maximum bound, every pair
  of the final selected list carries the parsed version of its tag, and that version is
  neither below the minimum bound nor above the maximum bound (both bounds are inclusive).
  The same holds for the minimum bound of \<open>install_all_minor_versions.py\<close>.
\<close>

theorem selected_versions_within_bounds:
  "(select_versions L tags lo hi = Inr out \<longrightarrow>
      (\<forall>(t, v) \<in> set out.
         tag_version L t = Some v \<and>
         (\<forall>l. lo = Some l \<longrightarrow> (\<exists>a. Version L l = Some a \<and> a \<le> v)) \<and>
         (\<forall>h. hi = Some h \<longrightarrow> (\<exists>b. Version L h = Some b \<and> v \<le> b))))
   \<and> (get_latest_minor_versions_all L tags m = Inr out' \<longrightarrow>
      (\<forall>(t, v) \<in> set out'.
         tag_version L t = Some v \<and> (\<exists>a. Version L m = Some a \<and> a \<le> v)))"
proof (intro conjI impI ballI)
  fix p assume s: "select_versions L tags lo hi = Inr out" and p: "p \<in> set out"
  obtain t v where tv: "p = (t, v)" by (cases p)
  from select_versions_entry(1) [OF s p] obtain vs where
    vs: "get_latest_minor_versions L tags = Inr vs" "p \<in> set vs" by blast
  from glmv_entries(2) [OF vs(1), of t v] vs(2) tv have 1: "tag_version L t = Some v" by simp
  have 2: "\<forall>l. lo = Some l \<longrightarrow> (\<exists>a. Version L l = Some a \<and> a \<le> v)"
    using select_versions_entry(2) [OF s p] tv by simp
  have 3: "\<forall>h. hi = Some h \<longrightarrow> (\<exists>b. Version L h = Some b \<and> v \<le> b)"
    using select_versions_entry(3) [OF s p] tv by simp
  from 1 2 3 show "case p of (t, v) \<Rightarrow>
         tag_version L t = Some v \<and>
         (\<forall>l. lo = Some l \<longrightarrow> (\<exists>a. Version L l = Some a \<and> a \<le> v)) \<and>
         (\<forall>h. hi = Some h \<longrightarrow> (\<exists>b. Version L h = Some b \<and> v \<le> b))"
    unfolding tv prod.case by blast
next
  fix p assume s: "get_latest_minor_versions_all L tags m = Inr out'" and p: "p \<in> set out'"
  obtain t v where tv: "p = (t, v)" by (cases p)
  from glmv_all_entry(1) [OF s p] tv have 1: "tag_version L t = Some v"
    by (simp add: set_parsed_tags)
  from glmv_all_entry(2) [OF s p] tv have 2: "\<exists>a. Version L m = Some a \<and> a \<le> v" by simp
  from 1 2 show "case p of (t, v) \<Rightarrow>
         tag_version L t = Some v \<and> (\<exists>a. Version L m = Some a \<and> a \<le> v)"
    unfolding tv prod.case by blast
qed

theorem selected_versions_within_bounds_witness:
  "select_versions core_semver [''v3.7.9'', ''v3.8.1'', ''v3.8.5'', ''v3.9.0'', ''v3.10.2'']
      (Some ''3.8.0'') (Some ''3.9.5'')
     = Inr [(''v3.8.5'', (3, 8, 5)), (''v3.9.0'', (3, 9, 0))]
   \<and> get_latest_minor_versions_all core_semver
        [''v3.7.9'', ''v3.8.1'', ''v3.8.5'', ''v3.9.0'', ''v3.10.2''] ''3.8.0''
     = Inr [(''v3.8.5'', (3, 8, 5)), (''v3.9.0'', (3, 9, 0)), (''v3.10.2'', (3, 10, 2))]
   \<and> tag_version core_semver ''v3.8.5'' = Some (3, 8, 5)
   \<and> tag_version core_semver ''v3.10.2'' = Some (3, 10, 2)"
proof -
  let ?tags = "[''v3.7.9'', ''v3.8.1'', ''v3.8.5'', ''v3.9.0'', ''v3.10.2'']"
  have g: "get_latest_minor_versions core_semver ?tags
     = Inr [(''v3.7.9'', (3, 7, 9)), (''v3.8.5'', (3, 8, 5)), (''v3.9.0'', (3, 9, 0)),
            (''v3.10.2'', (3, 10, 2))]"
    by (simp add: select_eval core_eval)
  have lo: "Version core_semver ''3.8.0'' = Some (3, 8, 0)" by (simp add: core_eval)
  have hi: "Version core_semver ''3.9.5'' = Some (3, 9, 5)" by (simp add: core_eval)
  have e1: "select_versions core_semver ?tags (Some ''3.8.0'') (Some ''3.9.5'')
     = Inr [(''v3.8.5'', (3, 8, 5)), (''v3.9.0'', (3, 9, 0))]"
    by (simp add: select_versions_def g at_least_Some [OF lo] at_most_Some [OF hi])
  have e2: "get_latest_minor_versions_all core_semver ?tags ''3.8.0''
     = Inr [(''v3.8.5'', (3, 8, 5)), (''v3.9.0'', (3, 9, 0)), (''v3.10.2'', (3, 10, 2))]"
    by (simp add: get_latest_minor_versions_all_def at_least_def select_eval core_eval)
  from selected_versions_within_bounds [of core_semver ?tags "Some ''3.8.0''" "Some ''3.9.5''"
      "[(''v3.8.5'', (3, 8, 5)), (''v3.9.0'', (3, 9, 0))]" "''3.8.0''"
      "[(''v3.8.5'', (3, 8, 5)), (''v3.9.0'', (3, 9, 0)), (''v3.10.2'', (3, 10, 2))]"] e1 e2
  have "tag_version core_semver ''v3.8.5'' = Some (3, 8, 5)
      \<and> tag_version core_semver ''v3.10.2'' = Some (3, 10, 2)"
    by simp
  with e1 e2 show ?thesis by simp
qed

text \<open>
  Claim C9.  For every list of tag strings and every minimum bound, with no maximum bound,
  \<open>get_latest_minor_versions(versions, minimum)\<close> of \<open>install_all_minor_versions.py\<close>
  and \<open>get_latest_minor_versions(versions)\<close> of \<open>install_cpython.py\<close> followed by its
  minimum filter select the same set of (tag, version) pairs; when one raises, the other
  raises the same exception.
\<close>

theorem minimum_filter_before_or_after_grouping:
  "map_sum id set (get_latest_minor_versions_all L tags m)
     = map_sum id set (select_versions L tags (Some m) None)"
proof (cases "[] \<in> set tags")
  case True
  then show ?thesis
    by (simp add: get_latest_minor_versions_all_def select_versions_def
        get_latest_minor_versions_def map_result_normalize_fail)
next
  case False
  let ?P = "parsed_tags L tags"
  have A: "get_latest_minor_versions_all L tags m
      = (case filter_result (at_least L m) ?P of Inl e \<Rightarrow> Inl e | Inr vs \<Rightarrow> group_and_max L vs)"
    using map_result_normalize_ok [OF False, of L]
    by (simp add: get_latest_minor_versions_all_def parsed_tags_def)
  from group_and_max_char [of L ?P] obtain ks where ks:
    "distinct ks \<and> set ks = (\<lambda>p. minor_key L (snd p)) ` set ?P \<and>
     group_and_max L ?P = Inr (map (latest_in L ?P) ks)" ..
  have B: "select_versions L tags (Some m) None
      = (case filter_result (at_least L m) (map (latest_in L ?P) ks) of
           Inl e \<Rightarrow> Inl e | Inr vs \<Rightarrow> Inr vs)"
    using glmv_ok [OF False, of L] ks by (simp add: select_versions_def cong: sum.case_cong)
  show ?thesis
  proof (cases "Version L m")
    case None
    show ?thesis
    proof (cases "?P = []")
      case True
      with ks have k0: "ks = []" by simp
      from ks k0 True have "group_and_max L [] = Inr []" by simp
      with True have "get_latest_minor_versions_all L tags m = Inr []"
        by (simp add: A filter_result_at_least_None [OF None])
      moreover from k0 have "select_versions L tags (Some m) None = Inr []"
        by (simp add: B)
      ultimately show ?thesis by simp
    next
      case False
      with ks have k1: "ks \<noteq> []" by auto
      from False have "get_latest_minor_versions_all L tags m = Inl (Invalid_version m)"
        by (simp add: A filter_result_at_least_None [OF None])
      moreover from k1 have "select_versions L tags (Some m) None = Inl (Invalid_version m)"
        by (simp add: B filter_result_at_least_None [OF None])
      ultimately show ?thesis by simp
    qed
  next
    case (Some b)
    let ?P' = "[p \<leftarrow> ?P. b \<le> snd p]"
    from group_and_max_char [of L ?P'] obtain ks' where ks':
      "distinct ks' \<and> set ks' = (\<lambda>p. minor_key L (snd p)) ` set ?P' \<and>
       group_and_max L ?P' = Inr (map (latest_in L ?P') ks')" ..
    from ks' have a: "get_latest_minor_versions_all L tags m = Inr (map (latest_in L ?P') ks')"
      by (simp add: A filter_result_at_least_Some [OF Some])
    have b: "select_versions L tags (Some m) None
        = Inr [q \<leftarrow> map (latest_in L ?P) ks. b \<le> snd q]"
      by (simp add: B filter_result_at_least_Some [OF Some])
    have k1: "set ks = (\<lambda>p. minor_key L (snd p)) ` set ?P" using ks by blast
    have k2: "set ks' = (\<lambda>p. minor_key L (snd p)) ` set ?P'" using ks' by blast
    from minimum_filter_sets [OF k1 k2]
    show ?thesis by (simp only: a b map_sum.simps)
  qed
qed

theorem minimum_filter_before_or_after_grouping_witness:
  "map_sum id set (get_latest_minor_versions_all core_semver
        [''v3.7.9'', ''v3.8.1'', ''3.8.5'', ''v3.8.5'', ''v3.9.0''] ''3.8.0'')
     = Inr {(''3.8.5'', (3, 8, 5)), (''v3.9.0'', (3, 9, 0))}
   \<and> map_sum id set (select_versions core_semver
        [''v3.7.9'', ''v3.8.1'', ''3.8.5'', ''v3.8.5'', ''v3.9.0''] (Some ''3.8.0'') None)
     = Inr {(''3.8.5'', (3, 8, 5)), (''v3.9.0'', (3, 9, 0))}"
proof -
  let ?tags = "[''v3.7.9'', ''v3.8.1'', ''3.8.5'', ''v3.8.5'', ''v3.9.0'']"
  have e: "get_latest_minor_versions_all core_semver ?tags ''3.8.0''
     = Inr [(''3.8.5'', (3, 8, 5)), (''v3.9.0'', (3, 9, 0))]"
    by (simp add: get_latest_minor_versions_all_def at_least_def select_eval core_eval)
  from minimum_filter_before_or_after_grouping [of core_semver ?tags "''3.8.0''"] e
  show ?thesis by simp
qed

lemma get_latest_minor_versions_returns:
  assumes "[] \<notin> set tags"
  shows "\<exists>out. get_latest_minor_versions L tags = Inr out \<and>
           (\<forall>(t, v) \<in> set out. t \<in> set tags \<and> tag_version L t = Some v)"
proof -
  from group_and_max_char [of L "parsed_tags L tags"] obtain ks where
    "distinct ks \<and> set ks = (\<lambda>p. minor_key L (snd p)) ` set (parsed_tags L tags) \<and>
     group_and_max L (parsed_tags L tags) = Inr (map (latest_in L (parsed_tags L tags)) ks)" ..
  then have r: "get_latest_minor_versions L tags = Inr (map (latest_in L (parsed_tags L tags)) ks)"
    using glmv_ok [OF assms, of L] by simp
  have "\<forall>(t, v) \<in> set (map (latest_in L (parsed_tags L tags)) ks).
          t \<in> set tags \<and> tag_version L t = Some v"
  proof
    fix p assume p: "p \<in> set (map (latest_in L (parsed_tags L tags)) ks)"
    obtain t v where tv: "p = (t, v)" by (cases p)
    with p have "(t, v) \<in> set (map (latest_in L (parsed_tags L tags)) ks)" by simp
    from glmv_entries(1) [OF r this] glmv_entries(2) [OF r this]
    show "case p of (t, v) \<Rightarrow> t \<in> set tags \<and> tag_version L t = Some v"
      unfolding tv prod.case by blast
  qed
  with r show ?thesis by blast
qed

text \<open>
  Claim C3, as amended.  The claim is that \<open>get_latest_minor_versions\<close> returns normally for
  every list of tag strings, the empty string included.  On the empty string
  \<open>normalize_version\<close> reads \<open>version_tag[0]\<close> and raises \<open>IndexError\<close>.  What holds: for
  every list of tag strings without the empty string the function returns, and every entry
  of the result is a tag of the list with its parsed version, so no unparseable tag appears.
  The lists the scripts pass are results of \<open>str.split()\<close>, which has no empty token, so
  there the function always returns.
\<close>

theorem get_latest_minor_versions_returns_without_empty_tag:
  "([] \<notin> set tags \<longrightarrow>
      (\<exists>out. get_latest_minor_versions L tags = Inr out \<and>
             (\<forall>(t, v) \<in> set out. t \<in> set tags \<and> tag_version L t = Some v)))
   \<and> [] \<notin> set (split git_output)
   \<and> (\<exists>out. get_latest_minor_versions L (split git_output) = Inr out \<and>
             (\<forall>(t, v) \<in> set out. t \<in> set (split git_output) \<and> tag_version L t = Some v))"
proof -
  have ne: "[] \<notin> set (split git_output)" using split_token [of "[]" git_output] by blast
  show ?thesis
    using get_latest_minor_versions_returns [of tags L]
      get_latest_minor_versions_returns [OF ne, of L] ne
    by blast
qed

theorem get_latest_minor_versions_returns_without_empty_tag_witness:
  "[] \<notin> set [''v3.8.1'', ''v3.8'', ''foo'']
   \<and> (\<exists>out. get_latest_minor_versions core_semver [''v3.8.1'', ''v3.8'', ''foo''] = Inr out)
   \<and> get_latest_minor_versions core_semver [''v3.8.1'', ''v3.8'', ''foo'']
        = Inr [(''v3.8.1'', (3, 8, 1))]"
proof -
  have e: "get_latest_minor_versions core_semver [''v3.8.1'', ''v3.8'', ''foo'']
        = Inr [(''v3.8.1'', (3, 8, 1))]"
    by (simp add: select_eval core_eval)
  have n: "[] \<notin> set [''v3.8.1'', ''v3.8'', ''foo'']" by simp
  from get_latest_minor_versions_returns_without_empty_tag
    [of "[''v3.8.1'', ''v3.8'', ''foo'']" core_semver "''''"] n
  have "\<exists>out. get_latest_minor_versions core_semver [''v3.8.1'', ''v3.8'', ''foo''] = Inr out"
    by blast
  with e n show ?thesis by blast
qed

theorem get_latest_minor_versions_empty_tag_counterexample:
  "get_latest_minor_versions core_semver [''v3.8.1'', ''''] = Inl IndexError"
  by (rule glmv_fail) simp

section \<open>Distro detection: proofs\<close>

lemma isspace_space: "isspace CHR '' ''"
  by (simp add: isspace_def)

lemma DistroLike_of_RedHatFedora: "DistroLike_of s = Some RedHatFedora \<Longrightarrow> s = ''rhel fedora''"
  by (simp add: DistroLike_of_def split: if_splits)

lemma id_like_value_no_space:
  assumes "v \<in> set [drop 8 line. line \<leftarrow> split content, take 8 line = ''ID_LIKE='']"
  shows "CHR '' '' \<notin> set v"
proof
  assume sp: "CHR '' '' \<in> set v"
  from assms obtain line where line: "line \<in> set (split content)" "v = drop 8 line" by auto
  from sp line(2) have "CHR '' '' \<in> set line" by (auto dest: in_set_dropD)
  with split_token [OF line(1)] isspace_space show False by blast
qed

lemma length_target_prefix: "length ''ID_LIKE='' = 8"
  by simp

lemma detect_distro_like_values:
  "detect_distro_like content =
     (if length (id_like_values content) \<noteq> 1 then Inl Unexpected_format
      else case DistroLike_of (last (id_like_values content)) of
             Some d \<Rightarrow> Inr d
           | None \<Rightarrow> Inl (Unsupported_distro (last (id_like_values content))))"
  unfolding detect_distro_like_def Let_def length_target_prefix id_like_values_def
  by (rule refl)

lemma detect_distro_like_never_RedHatFedora:
  "detect_distro_like content \<noteq> Inr RedHatFedora"
proof
  assume a: "detect_distro_like content = Inr RedHatFedora"
  define os where "os = id_like_values content"
  from a have b: "(if length os \<noteq> 1 then Inl Unexpected_format
      else case DistroLike_of (last os) of Some d \<Rightarrow> Inr d
           | None \<Rightarrow> Inl (Unsupported_distro (last os))) = Inr RedHatFedora"
    by (simp only: detect_distro_like_values os_def)
  then have len: "length os = 1" by (simp split: if_splits)
  then have ne: "os \<noteq> []" by auto
  from b len have "DistroLike_of (last os) = Some RedHatFedora"
    by (simp split: option.splits)
  then have "last os = ''rhel fedora''" by (rule DistroLike_of_RedHatFedora)
  moreover have "last os \<in> set os" using ne by (rule last_in_set)
  ultimately have "''rhel fedora'' \<in> set os" by simp
  then have "''rhel fedora'' \<in> set [drop 8 line. line \<leftarrow> split content, take 8 line = ''ID_LIKE='']"
    by (simp only: os_def id_like_values_def)
  from id_like_value_no_space [OF this] show False by simp
qed

lemma split_rhel: "split (''ID=rhel ID_LIKE=\"rhel fedora\"'') = [''ID=rhel'', ''ID_LIKE=\"rhel'', ''fedora\"'']"
  by (simp add: split_def isspace_def)


text \<open>
  Claim C10.  For every content of the OS release file, \<open>detect_distro_like\<close> never returns
  the \<open>RedHatFedora\<close> family: the content is split on whitespace, so no \<open>ID_LIKE\<close> value
  contains a space and the enum value \<open>"rhel fedora"\<close> cannot be matched.  A file with a single
  \<open>ID_LIKE\<close> token whose value is not \<open>"debian"\<close> ends in the unsupported-distro error.
\<close>

theorem detect_distro_like_RedHatFedora_unreachable:
  "detect_distro_like content \<noteq> Inr RedHatFedora \<and>
   (\<forall>v. id_like_values content = [v] \<and> v \<noteq> ''debian'' \<longrightarrow>
        detect_distro_like content = Inl (Unsupported_distro v))"
proof (intro conjI allI impI)
  show "detect_distro_like content \<noteq> Inr RedHatFedora"
    by (rule detect_distro_like_never_RedHatFedora)
next
  fix v
  assume a: "id_like_values content = [v] \<and> v \<noteq> ''debian''"
  then have "v \<in> set [drop 8 line. line \<leftarrow> split content, take 8 line = ''ID_LIKE='']"
    by (simp add: id_like_values_def)
  from id_like_value_no_space [OF this] have "v \<noteq> ''rhel fedora''" by auto
  with a show "detect_distro_like content = Inl (Unsupported_distro v)"
    by (simp add: detect_distro_like_values DistroLike_of_def)
qed

theorem detect_distro_like_RedHatFedora_unreachable_witness:
  "id_like_values ''ID=rhel ID_LIKE=\"rhel fedora\"'' = [''\"rhel''] \<and>
   detect_distro_like ''ID=rhel ID_LIKE=\"rhel fedora\"'' = Inl (Unsupported_distro ''\"rhel'') \<and>
   detect_distro_like ''ID=rhel ID_LIKE=\"rhel fedora\"'' \<noteq> Inr RedHatFedora"
proof -
  have v: "id_like_values ''ID=rhel ID_LIKE=\"rhel fedora\"'' = [''\"rhel'']"
    by (simp add: id_like_values_def split_rhel)
  from detect_distro_like_RedHatFedora_unreachable [of "''ID=rhel ID_LIKE=\"rhel fedora\"''"] v
  show ?thesis by simp
qed


section \<open>The build driver: traces\<close>

subsection \<open>Events of single commands\<close>

lemma getting_append: "getting (a @ b) = getting a @ getting b"
  by (simp add: getting_def)


lemma getting_Nil: "getting [] = []"
  by (simp add: getting_def)

lemma getting_Exec: "getting [Exec argv cwd] = []"
  by (simp add: getting_def)

lemma getting_failure_prints:
  "getting [Print_returncode rc] = []"
  "getting [Print_stdout out] = []"
  "getting [Print_stderr err] = []"
  by (simp_all add: getting_def)

lemma getting_Print: "getting [Print msg] = (if take 12 msg = ''>>> Getting '' then [drop 12 msg] else [])"
  by (simp add: getting_def)




lemma split_git_tag: "split ''git tag'' = [''git'', ''tag'']"
  by (simp add: split_def isspace_def)

lemma split_git_rev_parse: "split ''git rev-parse HEAD'' = [''git'', ''rev-parse'', ''HEAD'']"
  by (simp add: split_def isspace_def)

lemma safe_run_process_trace:
  assumes "split cmd \<noteq> []"
  shows "\<exists>evs. snd (safe_run_process W cmd cwd tr) = tr @ Exec (split cmd) cwd # evs
            \<and> getting evs = [] \<and> execs evs = []"
proof (cases "W tr (split cmd) cwd")
  case Launch_failed
  with assms show ?thesis by (simp add: safe_run_process_def Let_def getting_def execs_def)
next
  case (Exited rc out err)
  show ?thesis
  proof (cases "rc = 0")
    case True
    with assms Exited show ?thesis
      by (simp add: safe_run_process_def Let_def getting_def execs_def)
  next
    case False
    show ?thesis
    proof (cases out)
      case Undecodable
      with assms Exited False show ?thesis
        by (simp add: safe_run_process_def Let_def decode_def getting_def execs_def)
    next
      case (Text out_text)
      with assms Exited False show ?thesis
        by (cases err) (simp_all add: safe_run_process_def Let_def decode_def getting_def execs_def)
    qed
  qed
qed

lemma check_output_trace:
  assumes "split cmd \<noteq> []"
  shows "snd (check_output W cmd cwd tr) = tr @ [Exec (split cmd) cwd]"
proof (cases "W tr (split cmd) cwd")
  case Launch_failed
  with assms show ?thesis by (simp add: check_output_def Let_def)
next
  case (Exited rc out err)
  with assms show ?thesis by (simp add: check_output_def Let_def)
qed

lemma get_versions_trace:
  "snd (get_versions W dir tr) = tr @ [Exec [''git'', ''tag''] (Some dir)]"
proof -
  have ne: "split ''git tag'' \<noteq> []" by (simp add: split_git_tag)
  obtain r tr' where c: "check_output W ''git tag'' (Some dir) tr = (r, tr')"
    by (cases "check_output W ''git tag'' (Some dir) tr")
  with check_output_trace [OF ne, of W "Some dir" tr]
  have "tr' = tr @ [Exec [''git'', ''tag''] (Some dir)]" by (simp add: split_git_tag)
  with c show ?thesis
    by (simp add: get_versions_def split: sum.splits)
qed

subsection \<open>Statement sequences and the loop over the tags\<close>

lemma safe_run_process_extends:
  "\<exists>evs. snd (safe_run_process W cmd cwd tr) = tr @ evs \<and> getting evs = []"
proof (cases "split cmd = []")
  case True
  then have "snd (safe_run_process W cmd cwd tr) = tr @ []"
    by (simp add: safe_run_process_def Let_def)
  then show ?thesis using getting_Nil by blast
next
  case False
  from safe_run_process_trace [OF False, of W cwd tr] obtain evs where
    e: "snd (safe_run_process W cmd cwd tr) = tr @ Exec (split cmd) cwd # evs" "getting evs = []"
    by blast
  have "getting (Exec (split cmd) cwd # evs) = []"
    using getting_append [of "[Exec (split cmd) cwd]" evs] e(2) by (simp add: getting_Exec)
  with e(1) show ?thesis by blast
qed

lemma exec_stmts_extends:
  assumes "\<And>m. Say m \<in> set stmts \<Longrightarrow> take 12 m \<noteq> ''>>> Getting ''"
  shows "\<exists>evs. snd (exec_stmts W stmts tr) = tr @ evs \<and> getting evs = []"
  using assms
proof (induction stmts arbitrary: tr)
  case Nil
  have "snd (exec_stmts W [] tr) = tr @ []" by simp
  then show ?case using getting_Nil by blast
next
  case (Cons s stmts)
  have rest: "\<And>m. Say m \<in> set stmts \<Longrightarrow> take 12 m \<noteq> ''>>> Getting ''"
    using Cons.prems by simp
  show ?case
  proof (cases s)
    case (Say m)
    from Cons.prems [of m] Say have nm: "take 12 m \<noteq> ''>>> Getting ''" by simp
    from Cons.IH [OF rest, of "tr @ [Print m]"] obtain evs where
      e: "snd (exec_stmts W stmts (tr @ [Print m])) = (tr @ [Print m]) @ evs" "getting evs = []"
      by blast
    have "getting (Print m # evs) = []"
      using getting_append [of "[Print m]" evs] e(2) nm by (simp add: getting_Print)
    moreover from e(1) Say have "snd (exec_stmts W (s # stmts) tr) = tr @ Print m # evs" by simp
    ultimately show ?thesis by blast
  next
    case (Run cmd cwd)
    obtain r tr' where p: "safe_run_process W cmd cwd tr = (r, tr')"
      by (cases "safe_run_process W cmd cwd tr")
    from safe_run_process_extends [of W cmd cwd tr] p obtain evs where
      e: "tr' = tr @ evs" "getting evs = []" by auto
    show ?thesis
    proof (cases r)
      case (Inl err)
      with p Run e show ?thesis by auto
    next
      case (Inr u)
      from Cons.IH [OF rest, of tr'] obtain evs' where
        e': "snd (exec_stmts W stmts tr') = tr' @ evs'" "getting evs' = []" by blast
      from e e' have "getting (evs @ evs') = []" by (simp add: getting_append)
      moreover from p Run Inr e e' have "snd (exec_stmts W (s # stmts) tr) = tr @ (evs @ evs')"
        by simp
      ultimately show ?thesis by blast
    qed
  qed
qed




subsection \<open>The steps before the loop\<close>

lemma get_versions_traceD:
  "get_versions W dir tr = (r, tr') \<Longrightarrow> tr' = tr @ [Exec [''git'', ''tag''] (Some dir)]"
  using get_versions_trace [of W dir tr] by simp

lemma check_output_rev_parseD:
  "check_output W ''git rev-parse HEAD'' cwd tr = (r, tr')
   \<Longrightarrow> tr' = tr @ [Exec [''git'', ''rev-parse'', ''HEAD''] cwd]"
  using check_output_trace [of "''git rev-parse HEAD''" W cwd tr]
  by (simp add: split_git_rev_parse)

lemma check_output_extends:
  "\<exists>evs. snd (check_output W cmd cwd tr) = tr @ evs \<and> getting evs = []"
proof (cases "split cmd = []")
  case True
  then have "snd (check_output W cmd cwd tr) = tr @ []" by (simp add: check_output_def Let_def)
  then show ?thesis using getting_Nil by blast
next
  case False
  from check_output_trace [OF False, of W cwd tr] getting_Exec [of "split cmd" cwd]
  show ?thesis by blast
qed

lemma restore_head_extends:
  "\<exists>evs. snd (restore_head W dir ref tr) = tr @ evs \<and> getting evs = []"
proof -
  let ?p = "Print (''>>> Restoring head to '' @ ref)"
  obtain r tr' where c: "check_output W (''git checkout '' @ ref) (Some dir) (tr @ [?p]) = (r, tr')"
    by (cases "check_output W (''git checkout '' @ ref) (Some dir) (tr @ [?p])")
  from check_output_extends [of W "''git checkout '' @ ref" "Some dir" "tr @ [?p]"] c
  obtain evs where e: "tr' = (tr @ [?p]) @ evs" "getting evs = []" by auto
  have "getting (?p # evs) = []"
    using getting_append [of "[?p]" evs] e(2) by (simp add: getting_Print)
  moreover have "snd (restore_head W dir ref tr) = tr @ ?p # evs"
    using c e(1) by (simp add: restore_head_def split: sum.splits)
  ultimately show ?thesis by blast
qed

lemma install_system_dependencies_extends:
  "\<exists>evs. snd (install_system_dependencies W d tr) = tr @ evs \<and> getting evs = []"
proof (cases d)
  case Debian
  show ?thesis unfolding install_system_dependencies_def Debian DistroLike.case
    by (rule exec_stmts_extends) simp
next
  case RedHatFedora
  show ?thesis unfolding install_system_dependencies_def RedHatFedora DistroLike.case
    by (rule exec_stmts_extends) simp
qed

lemma install_system_dependencies_gettingD:
  "install_system_dependencies W d tr = (r, tr') \<Longrightarrow> getting tr' = getting tr"
  using install_system_dependencies_extends [of W d tr] by (auto simp: getting_append)

lemma pull_step_extends:
  "\<exists>evs. snd (pull_step W dir flag tr) = tr @ evs \<and> getting evs = []"
proof (cases flag)
  case True
  have "\<exists>evs. snd (exec_stmts W [Say ''>>> Pulling'', Run ''git pull'' (Some dir)] tr) = tr @ evs
          \<and> getting evs = []"
    by (rule exec_stmts_extends) simp
  with True show ?thesis unfolding pull_step_def by (simp only: if_True)
next
  case False
  have "getting [Print ''>>> Skipping pulling''] = []" by (simp add: getting_Print)
  with False show ?thesis by (simp add: pull_step_def)
qed

lemma pull_step_gettingD:
  "pull_step W dir flag tr = (r, tr') \<Longrightarrow> getting tr' = getting tr"
  using pull_step_extends [of W dir flag tr] by (auto simp: getting_append)

lemma getting_Cons_Exec: "getting (Exec argv cwd # tr) = getting tr"
  by (simp add: getting_def)

lemma getting_Cons_Print:
  "getting (Print msg # tr) = (if take 12 msg = ''>>> Getting '' then [drop 12 msg] else []) @ getting tr"
  by (simp add: getting_def)

lemma main_setup_getting: "getting (snd (main_setup L W os a)) = []"
  by (auto simp: main_setup_def Let_def getting_append getting_Nil getting_Cons_Exec getting_Cons_Print
      split: prod.splits sum.splits
      dest!: get_versions_traceD check_output_rev_parseD
        install_system_dependencies_gettingD pull_step_gettingD)


lemma main_setup_detect_fails:
  assumes "detect_distro_like os = Inl e"
  shows "\<exists>e' tr. main_setup L W os a = (Inl e', tr)
           \<and> set (execs tr) \<subseteq> {[''git'', ''tag''], [''git'', ''rev-parse'', ''HEAD'']}"
  using assms
  by (auto simp: main_setup_def Let_def execs_def
      split: prod.splits sum.splits
      dest!: get_versions_traceD check_output_rev_parseD)

lemma sorted_rev_take_sorted_reverse: "sorted (rev (take n (sorted_reverse xs)))"
proof -
  have "rev (take n (rev (sort xs))) = drop (length (sort xs) - n) (sort xs)"
    by (simp add: rev_take)
  moreover have "sorted (drop (length (sort xs) - n) (sort xs))"
    by (rule sorted_wrt_drop) simp
  ultimately show ?thesis by (simp add: sorted_reverse_def)
qed

subsection \<open>Failures inside the loop and the final checkout\<close>















section \<open>The build driver: whole runs\<close>




lemma main_setup_fails_getting:
  assumes "main_setup L W os_release a = (Inl e, tr0)"
  shows "main L W os_release a = (Inl e, tr0)" and "getting (snd (main L W os_release a)) = []"
proof -
  from assms show m: "main L W os_release a = (Inl e, tr0)" by (simp add: main_def)
  from main_setup_getting [of L W os_release a] assms m
  show "getting (snd (main L W os_release a)) = []" by simp
qed








section \<open>Concrete runs\<close>

lemmas run_eval = answers_def repo_answers_def run_args_def get_versions_def check_output_def
  decode_def split_def isspace_def strip_def Let_def












lemma repo_order: "sorted_reverse [''v3.9.1'', ''v3.10.2''] = [''v3.9.1'', ''v3.10.2'']"
  by (simp add: sorted_reverse_def)

lemma arch_no_id_like: "id_like_values ''ID=arch'' = []"
  by (simp add: id_like_values_def split_def isspace_def)


section \<open>The build driver: the recorded ref and the first commands\<close>














section \<open>Concrete runs with a failing command\<close>









lemma all_selection:
  "get_latest_minor_versions_all core_semver [''v3.9.1'', ''v3.10.2''] ''3.0.0''
     = Inr [(''v3.9.1'', (3, 9, 1)), (''v3.10.2'', (3, 10, 2))]"
  by (simp add: get_latest_minor_versions_all_def at_least_def select_eval core_eval)








text \<open>
  Output that \<open>decode()\<close> rejects: \<open>git add -A\<close> exits with status 1 and its captured
  standard output is not text.  \<open>safe_run_process\<close> prints the return code, then
  \<open>out.decode()\<close> raises \<open>UnicodeDecodeError\<close>, which \<open>except OSError\<close> does not catch: the
  run ends inside the first iteration.
\<close>

lemma main_all_undecodable_output:
  "main_all core_semver undecodable_output (run_args_all False)
     = (Inl UnicodeDecodeError,
        [Exec [''git'', ''tag''] (Some ''cpython''),
         Exec [''git'', ''rev-parse'', ''HEAD''] (Some ''cpython''),
         Print ''>>> Initial ref: abc'',
         Print ''>>> Skipping pulling'',
         Print ''>>> Getting v3.9.1'',
         Exec [''git'', ''add'', ''-A''] (Some ''cpython''),
         Print_returncode 1])"
proof -
  have t: "get_versions undecodable_output (cpython_repo_dir_all (run_args_all False)) [] =
     (Inr [''v3.9.1'', ''v3.10.2''], [Exec [''git'', ''tag''] (Some ''cpython'')])"
    by (simp add: undecodable_output_def run_args_all_def run_eval)
  have s: "get_latest_minor_versions_all core_semver [''v3.9.1'', ''v3.10.2'']
       (minimum_python_version_all (run_args_all False))
     = Inr [(''v3.9.1'', (3, 9, 1)), (''v3.10.2'', (3, 10, 2))]"
    using all_selection by (simp add: run_args_all_def)
  show ?thesis
    unfolding main_all_def main_all_setup_def t s prod.case sum.case
    by (simp add: Let_def repo_order undecodable_output_def answers_def repo_answers_def run_args_all_def check_output_def
        decode_def split_def isspace_def strip_def pull_step_def safe_run_process_def
        tag_steps_all_def)
qed


section \<open>Properties of the build driver\<close>

text \<open>
  Claim C8.  When the os-release text does not contain exactly one \<open>ID_LIKE=\<close> token, or the
  value of its \<open>ID_LIKE=\<close> token is not one of the supported families, \<open>detect_distro_like\<close>
  raises a \<open>ValueError\<close>, the run of \<open>install_cpython.py\<close> ends in an exception, no
  iteration of the loop over the tags was entered, and the only commands run are
  \<open>git tag\<close> and \<open>git rev-parse HEAD\<close>.
\<close>

theorem unsupported_distro_fatal_before_any_build:
  assumes "length (id_like_values os_release) \<noteq> 1
           \<or> (last (id_like_values os_release) \<noteq> ''debian''
              \<and> last (id_like_values os_release) \<noteq> ''rhel fedora'')"
  shows "detect_distro_like os_release
           = Inl (if length (id_like_values os_release) \<noteq> 1 then Unexpected_format
                  else Unsupported_distro (last (id_like_values os_release)))
       \<and> (\<exists>e. fst (main L W os_release a) = Inl e)
       \<and> getting (snd (main L W os_release a)) = []
       \<and> set (execs (snd (main L W os_release a)))
            \<subseteq> {[''git'', ''tag''], [''git'', ''rev-parse'', ''HEAD'']}"
proof -
  from assms have d: "detect_distro_like os_release
           = Inl (if length (id_like_values os_release) \<noteq> 1 then Unexpected_format
                  else Unsupported_distro (last (id_like_values os_release)))"
    by (auto simp: detect_distro_like_values DistroLike_of_def)
  from main_setup_detect_fails [OF this, of L W a] obtain e' tr where
    s: "main_setup L W os_release a = (Inl e', tr)"
       "set (execs tr) \<subseteq> {[''git'', ''tag''], [''git'', ''rev-parse'', ''HEAD'']}"
    by blast
  from main_setup_fails_getting [OF s(1)] s(2) d show ?thesis by simp
qed

theorem unsupported_distro_fatal_before_any_build_witness:
  "detect_distro_like ''ID=arch'' = Inl Unexpected_format
   \<and> (\<exists>e. fst (main core_semver (answers repo_answers) ''ID=arch'' (run_args False)) = Inl e)
   \<and> getting (snd (main core_semver (answers repo_answers) ''ID=arch'' (run_args False))) = []"
  using unsupported_distro_fatal_before_any_build
    [of "''ID=arch''" core_semver "answers repo_answers" "run_args False"]
  by (simp add: arch_no_id_like)













end
